theory Spec2Isabelle
  imports Main "HOL-Library.Word" "HOL-Library.Finite_Map" "HOL-Library.Char_ord" "HOL-Library.List_Lexorder"
begin

unbundle bit_operations_syntax

text \<open>
  A shallow embedding of the process-local cache of \<open>go-server-comon\<close>: the linkage graph
  (package \<open>link\<close>), the shard LRU with expiry (package \<open>lru\<close>) and the coordinator
  (package \<open>localcache\<close>), with the properties of deletion, cascade and memoization that
  hold of them. Operations run one after the other and mutexes do not appear; the one
  goroutine of the cache, which deletes the keys that an eviction queued, takes its turns
  between the operations.
\<close>

section \<open>Key hashing\<close>

text \<open>
  Both the linkage graph (\<open>slot.index\<close>) and the cache (\<open>LRUStringHash\<close>) hash a key with
  Go's \<open>hash/fnv\<close> 64-bit FNV-1a: starting from the offset basis, every byte of the key is
  xor-ed into the hash, which is then multiplied by the FNV prime modulo \<open>2 ^ 64\<close>.
\<close>

definition fnv64a :: "string \<Rightarrow> 64 word" where
  "fnv64a s = foldl (\<lambda>h c. (h XOR of_char c) * 1099511628211) 14695981039346656037 s"

definition LRUStringHash :: "string \<Rightarrow> 64 word" where
  "LRUStringHash key = fnv64a key"

section \<open>The linkage graph (package link)\<close>

text \<open>
  A Go set \<open>map[string]struct{}\<close> is a finite set of keys. Go visits the keys of a map in an
  order it does not specify. A \<open>range_order\<close> is one way of visiting: it lists every set, each
  member once. Every \<open>range\<close> loop over a set takes its order from a parameter \<open>rng\<close> of
  this type, so that what is proved holds for each of them.
\<close>

type_synonym keyset = "string fset"

lemma sorted_list_of_fset_distinct: "distinct (sorted_list_of_fset S)"
  by (simp add: sorted_list_of_fset.rep_eq)

typedef range_order = "{f :: keyset \<Rightarrow> string list. \<forall>S. fset_of_list (f S) = S \<and> distinct (f S)}"
  morphisms range_over Abs_range_order
proof
  show "sorted_list_of_fset \<in> {f :: keyset \<Rightarrow> string list. \<forall>S. fset_of_list (f S) = S \<and> distinct (f S)}"
    by (simp add: sorted_list_of_fset_distinct)
qed

setup_lifting type_definition_range_order

text \<open>One order in which Go may visit a set: ascending.\<close>

lift_definition range_sorted :: range_order is sorted_list_of_fset
  by (simp add: sorted_list_of_fset_distinct)

text \<open>Ranging over the result of \<open>linkKey.del\<close>, which is \<open>nil\<close> when the key is absent.\<close>

fun range_keys :: "range_order \<Rightarrow> keyset option \<Rightarrow> string list" where
  "range_keys rng None = []"
| "range_keys rng (Some ks) = range_over rng ks"

record linkKey =
  lk_data :: "(string, keyset) fmap"

definition newLinkKey :: linkKey where
  "newLinkKey = \<lparr>lk_data = fmempty\<rparr>"

definition linkKey_link :: "string \<Rightarrow> string list \<Rightarrow> linkKey \<Rightarrow> linkKey" where
  "linkKey_link key link x =
     (let v = (case fmlookup (lk_data x) key of Some v \<Rightarrow> v | None \<Rightarrow> {||})
      in x\<lparr>lk_data := fmupd key (fold finsert link v) (lk_data x)\<rparr>)"

definition linkKey_del :: "string \<Rightarrow> linkKey \<Rightarrow> keyset option \<times> linkKey" where
  "linkKey_del key x =
     (case fmlookup (lk_data x) key of
        None \<Rightarrow> (None, x)
      | Some ks \<Rightarrow> (Some ks, x\<lparr>lk_data := fmdrop key (lk_data x)\<rparr>))"

text \<open>
  \<open>slot\<close> holds the shard count \<open>n\<close> and the slice of \<open>n\<close> shards. The slice is only ever
  read at \<open>index s = hash s % n\<close>; it is a total function of the 64-bit index here, so that
  no read is out of range. \<open>New\<close> panics unless the count is positive; the count is a Go
  \<open>int\<close>, so its conversion to \<open>uint64\<close> is not zero.
\<close>

record slot =
  slot_n :: "64 word"
  slot_slots :: "64 word \<Rightarrow> linkKey"

datatype panic = Panic string

definition link_New :: "int \<Rightarrow> panic + slot" where
  "link_New cnt =
     (if cnt \<le> 0 then Inl (Panic ''slot count must be greater than 0'')
      else Inr \<lparr>slot_n = of_int cnt, slot_slots = (\<lambda>_. newLinkKey)\<rparr>)"

definition slot_index :: "slot \<Rightarrow> string \<Rightarrow> 64 word" where
  "slot_index x s = fnv64a s mod slot_n x"

definition shard_link :: "string \<Rightarrow> string list \<Rightarrow> slot \<Rightarrow> slot" where
  "shard_link key link x =
     x\<lparr>slot_slots := (slot_slots x)
          (slot_index x key := linkKey_link key link (slot_slots x (slot_index x key)))\<rparr>"

definition slot_Link :: "string \<Rightarrow> string list \<Rightarrow> slot \<Rightarrow> slot" where
  "slot_Link key link x =
     (if length link = 0 then x
      else fold (\<lambda>lk. shard_link lk [key]) link (shard_link key link x))"

definition shard_del :: "string \<Rightarrow> slot \<Rightarrow> keyset option \<times> slot" where
  "shard_del key x =
     (case linkKey_del key (slot_slots x (slot_index x key)) of
        (ks, sh) \<Rightarrow> (ks, x\<lparr>slot_slots := (slot_slots x)(slot_index x key := sh)\<rparr>))"

definition graph_size :: "slot \<Rightarrow> nat" where
  "graph_size x = (\<Sum>i\<in>UNIV. fcard (fmdom (lk_data (slot_slots x i))))"

lemma graph_size_upd:
  "graph_size (x\<lparr>slot_slots := (slot_slots x)(i := sh)\<rparr>) + fcard (fmdom (lk_data (slot_slots x i)))
     = graph_size x + fcard (fmdom (lk_data sh))"
proof -
  let ?g = "\<lambda>j. fcard (fmdom (lk_data (slot_slots x j)))"
  let ?h = "\<lambda>j. fcard (fmdom (lk_data (((slot_slots x)(i := sh)) j)))"
  have a: "sum ?g UNIV = ?g i + sum ?g (UNIV - {i})"
    by (rule sum.remove) simp_all
  have b: "sum ?h UNIV = ?h i + sum ?h (UNIV - {i})"
    by (rule sum.remove) simp_all
  have c: "sum ?h (UNIV - {i}) = sum ?g (UNIV - {i})"
    by (rule sum.cong) simp_all
  show ?thesis
    using a b c by (simp add: graph_size_def)
qed

lemma shard_del_None_size:
  "shard_del key x = (None, x') \<Longrightarrow> graph_size x' = graph_size x"
  using graph_size_upd [of x "slot_index x key" "slot_slots x (slot_index x key)"]
  by (auto simp: shard_del_def linkKey_del_def split: option.splits)

lemma fcard_fmdom_fmdrop:
  "fmlookup m k = Some v \<Longrightarrow> fcard (fmdom (fmdrop k m)) < fcard (fmdom m)"
proof -
  assume "fmlookup m k = Some v"
  then have "k |\<in>| fmdom m"
    by (simp add: fmdomI)
  then have "Suc (fcard (fmdom m |-| {|k|})) = fcard (fmdom m)"
    by (rule fcard_Suc_fminus1)
  then show ?thesis
    by simp
qed

lemma shard_del_Some_size:
  "shard_del key x = (Some ks, x') \<Longrightarrow> graph_size x' < graph_size x"
  using graph_size_upd [of x "slot_index x key"
      "(slot_slots x (slot_index x key))\<lparr>lk_data := fmdrop key (lk_data (slot_slots x (slot_index x key)))\<rparr>"]
    fcard_fmdom_fmdrop [of "lk_data (slot_slots x (slot_index x key))" key]
  by (auto simp: shard_del_def linkKey_del_def split: option.splits)

function delKey_loop :: "range_order \<Rightarrow> keyset \<Rightarrow> string list \<Rightarrow> slot \<Rightarrow> keyset \<times> slot" where
  "delKey_loop rng del stack x =
     (if stack = [] then (del, x)
      else let curr = last stack; stack' = butlast stack in
        if curr |\<in>| del then delKey_loop rng del stack' x
        else (case shard_del curr x of
                (childKeys, x') \<Rightarrow>
                  delKey_loop rng (finsert curr del) (stack' @ range_keys rng childKeys) x'))"
  by pat_completeness auto
termination
  apply (relation "measures [\<lambda>(rng, del, stack, x). graph_size x, \<lambda>(rng, del, stack, x). length stack]")
  apply simp
  apply simp
  subgoal for rng del stack x curr stack' childKeys
    by (cases childKeys) (auto dest: shard_del_None_size [OF sym] shard_del_Some_size [OF sym])
  done

declare delKey_loop.simps [simp del]

definition delKey :: "range_order \<Rightarrow> string \<Rightarrow> slot \<Rightarrow> keyset \<times> slot" where
  "delKey rng k x = delKey_loop rng {||} [k] x"

definition slot_Del :: "range_order \<Rightarrow> string \<Rightarrow> slot \<Rightarrow> keyset \<times> slot" where
  "slot_Del rng key x = delKey rng key x"

subsection \<open>Adjacency and reachability\<close>

definition stored :: "slot \<Rightarrow> 64 word \<Rightarrow> string \<Rightarrow> keyset option" where
  "stored x i k = fmlookup (lk_data (slot_slots x i)) k"

definition adj :: "slot \<Rightarrow> string \<Rightarrow> keyset" where
  "adj x k = (case stored x (slot_index x k) k of None \<Rightarrow> {||} | Some v \<Rightarrow> v)"

definition symmetric :: "slot \<Rightarrow> bool" where
  "symmetric x \<longleftrightarrow> (\<forall>a b. b |\<in>| adj x a \<longleftrightarrow> a |\<in>| adj x b)"

definition edges :: "slot \<Rightarrow> (string \<times> string) set" where
  "edges x = {(a, b). b |\<in>| adj x a}"

definition reachable :: "slot \<Rightarrow> string \<Rightarrow> string set" where
  "reachable x k = (edges x)\<^sup>* `` {k}"

definition live_edges :: "slot \<Rightarrow> keyset \<Rightarrow> (string \<times> string) set" where
  "live_edges x del = {(a, b). a |\<notin>| del \<and> b |\<in>| adj x a}"


subsection \<open>Sequences of operations and concrete graphs\<close>

datatype link_op = OpLink string "string list" | OpDel string

fun apply_link_op :: "range_order \<Rightarrow> link_op \<Rightarrow> slot \<Rightarrow> slot" where
  "apply_link_op rng (OpLink key link) x = slot_Link key link x"
| "apply_link_op rng (OpDel key) x = snd (slot_Del rng key x)"

text \<open>The graph of \<open>New(10)\<close>, as the tests of the package build it.\<close>

definition graph10 :: slot where
  "graph10 = \<lparr>slot_n = 10, slot_slots = (\<lambda>_. newLinkKey)\<rparr>"

text \<open>\<open>l := New(10); l.Link("key1", "link1")\<close>, the graph of \<open>TestLink_BidirectionalLink\<close>.\<close>

definition graph_key1_link1 :: slot where
  "graph_key1_link1 = slot_Link ''key1'' [''link1''] graph10"

subsection \<open>The traversal never adds an entry\<close>

lemma slot_Del_absent:
  assumes "stored x (slot_index x k) k = None"
  shows "slot_Del rng k x = ({|k|}, x)"
proof -
  have sd: "shard_del k x = (None, x)"
    using assms by (simp add: shard_del_def linkKey_del_def stored_def)
  have "delKey_loop rng {||} [k] x = delKey_loop rng {|k|} [] x"
    by (subst delKey_loop.simps) (simp add: sd)
  also have "\<dots> = ({|k|}, x)"
    by (subst delKey_loop.simps) simp
  finally show ?thesis
    by (simp add: slot_Del_def delKey_def)
qed

lemma delKey_loop_size: "graph_size (snd (delKey_loop rng del stack x)) \<le> graph_size x"
proof (induction rng del stack x rule: delKey_loop.induct)
  case (1 rng del stack x)
  show ?case
  proof (cases "stack = []")
    case True
    then show ?thesis by (subst delKey_loop.simps) simp
  next
    case ne: False
    show ?thesis
    proof (cases "last stack |\<in>| del")
      case True
      have "delKey_loop rng del stack x = delKey_loop rng del (butlast stack) x"
        using ne True by (subst delKey_loop.simps) (simp add: Let_def)
      with "1.IH"(1) [OF ne refl refl True] show ?thesis by simp
    next
      case False
      obtain ck x1 where sd: "shard_del (last stack) x = (ck, x1)"
        by (cases "shard_del (last stack) x")
      have eq: "delKey_loop rng del stack x
          = delKey_loop rng (finsert (last stack) del) (butlast stack @ range_keys rng ck) x1"
        using ne False by (subst delKey_loop.simps) (simp add: Let_def sd)
      have "graph_size x1 \<le> graph_size x"
        using sd shard_del_None_size [of "last stack" x x1] shard_del_Some_size [of "last stack" x _ x1]
        by (cases ck) auto
      with "1.IH"(2) [OF ne refl refl False sd [symmetric]] show ?thesis
        unfolding eq by simp
    qed
  qed
qed

lemma slot_Del_size_le: "graph_size (snd (slot_Del rng k x)) \<le> graph_size x"
  by (simp add: slot_Del_def delKey_def delKey_loop_size)

lemma slot_Del_size_less:
  assumes "fmlookup (lk_data (slot_slots x (slot_index x k))) k \<noteq> None"
  shows "graph_size (snd (slot_Del rng k x)) < graph_size x"
proof -
  obtain ks where ks: "fmlookup (lk_data (slot_slots x (slot_index x k))) k = Some ks"
    using assms by auto
  define x1 where "x1 = snd (shard_del k x)"
  have sd: "shard_del k x = (Some ks, x1)"
    using ks by (simp add: x1_def shard_del_def linkKey_del_def)
  have "delKey_loop rng {||} [k] x = delKey_loop rng {|k|} (range_keys rng (Some ks)) x1"
    by (subst delKey_loop.simps) (simp add: sd)
  moreover have "graph_size (snd (delKey_loop rng {|k|} (range_keys rng (Some ks)) x1)) \<le> graph_size x1"
    by (rule delKey_loop_size)
  moreover have "graph_size x1 < graph_size x"
    using sd by (rule shard_del_Some_size)
  ultimately show ?thesis
    by (simp add: slot_Del_def delKey_def)
qed

lemma range_over_single: "range_over rng {|k|} = [k]"
proof -
  have d: "distinct (range_over rng {|k|})" and s: "fset_of_list (range_over rng {|k|}) = {|k|}"
    using range_over [of rng] by simp_all
  from s have "set (range_over rng {|k|}) = {k}"
    by (metis fset_of_list.rep_eq fset_simps(1) fset_simps(2))
  with d show ?thesis
  proof (cases "range_over rng {|k|}")
    case Nil
    with \<open>set (range_over rng {|k|}) = {k}\<close> show ?thesis by simp
  next
    case (Cons a list)
    with d \<open>set (range_over rng {|k|}) = {k}\<close> have "a = k" "set list \<subseteq> {k}" "k \<notin> set list"
      by auto
    then have "list = []"
      by (cases list) auto
    with Cons \<open>a = k\<close> show ?thesis by simp
  qed
qed

section \<open>The shard LRU (package lru)\<close>

text \<open>
  A Go \<open>error\<close> is \<open>nil\<close> or an error value. Instants and durations are natural numbers in
  one unit; every operation that reads the clock takes the instant \<open>now\<close> as a parameter.
\<close>

type_synonym error = string

text \<open>
  The stats target and the eviction callback are effects on the world \<open>'w\<close> outside the
  LRU. Both are fixed when an LRU is constructed and never change afterwards; the
  operations take them as parameters. A callback is \<open>nil\<close> (\<open>None\<close>) or a function.
\<close>

record 'w Target =
  IncrGetHit :: "'w \<Rightarrow> 'w"
  IncrGetSuccess :: "'w \<Rightarrow> 'w"
  IncrGetFailed :: "'w \<Rightarrow> 'w"
  IncrDelHit :: "'w \<Rightarrow> 'w"
  IncrDelNotFound :: "'w \<Rightarrow> 'w"

type_synonym ('k, 'v, 'w) EvictCallback = "('k \<Rightarrow> 'v \<Rightarrow> 'w \<Rightarrow> 'w) option"

text \<open>A fetcher returns a value and an error, and may change the world.\<close>

type_synonym ('v, 'w) fetcher = "'w \<Rightarrow> ('v \<times> error option) \<times> 'w"

record 'v expirationLruItem =
  item_err :: "error option"
  item_value :: 'v

text \<open>
  An entry of an LRU: the key, the item and the deadline of the entry. The entries are
  kept in recency order, the most recently used first. The LRU holds a pointer to the item,
  and \<open>Get\<close> writes the result of the fetcher through that pointer after the entry was
  added; here the entry holds the item, and \<open>store_item\<close> writes the item of the entry.
\<close>

type_synonym ('k, 'v) entry = "'k \<times> 'v expirationLruItem \<times> nat"

definition expired :: "nat \<Rightarrow> ('k, 'v) entry \<Rightarrow> bool" where
  "expired now e \<longleftrightarrow> snd (snd e) < now"

definition find_entry :: "'k \<Rightarrow> ('k, 'v) entry list \<Rightarrow> ('k, 'v) entry option" where
  "find_entry k es = find (\<lambda>e. fst e = k) es"

definition drop_key :: "'k \<Rightarrow> ('k, 'v) entry list \<Rightarrow> ('k, 'v) entry list" where
  "drop_key k es = filter (\<lambda>e. fst e \<noteq> k) es"

definition store_item ::
  "'k \<Rightarrow> 'v expirationLruItem \<Rightarrow> ('k, 'v) entry list \<Rightarrow> ('k, 'v) entry list" where
  "store_item k it es = map (\<lambda>e. if fst e = k then (k, it, snd (snd e)) else e) es"

text \<open>Inserting at the most recent end; the least recent entry leaves when the capacity is exceeded.\<close>

definition push_entry ::
  "nat \<Rightarrow> ('k, 'v) entry \<Rightarrow> ('k, 'v) entry list \<Rightarrow> ('k, 'v) entry list \<times> ('k, 'v) entry list" where
  "push_entry cap e es =
     (if cap < length (e # es) then (butlast (e # es), [last (e # es)]) else (e # es, []))"

text \<open>The callback that \<open>NewExpirationLRU\<close> registers passes the value of the evicted item on.\<close>

fun run_evict :: "('k, 'v, 'w) EvictCallback \<Rightarrow> ('k, 'v) entry list \<Rightarrow> 'w \<Rightarrow> 'w" where
  "run_evict None es w = w"
| "run_evict (Some onEvict) es w = fold (\<lambda>e. onEvict (fst e) (item_value (fst (snd e)))) es w"

subsection \<open>The expirable LRU underneath\<close>

text \<open>
  Modelled from the spec: the LRU with eviction by TTL of the library
  \<open>github.com/hashicorp/golang-lru/v2/expirable\<close>, on which \<open>ExpirationLRU\<close> is built and
  which is not among the sources. It holds at most \<open>core_size\<close> entries, gives each entry
  the deadline \<open>now + core_ttl\<close> when it is added, removes at read time the entries whose
  deadline has passed, removes the least recently used entry when an insert exceeds the
  capacity, and runs the eviction callback on the entries it removes for capacity or TTL.
  Each operation returns the entries for which the callback runs. Whether an explicit
  \<open>Remove\<close> also runs the callback is decided by the library; \<open>core_notify\<close> says so, and
  the theorems hold for both values.
\<close>

record ('k, 'v) core =
  core_size :: nat
  core_ttl :: nat
  core_items :: "('k, 'v) entry list"
  core_notify :: bool

definition core_Get ::
  "nat \<Rightarrow> 'k \<Rightarrow> ('k, 'v) core \<Rightarrow> 'v expirationLruItem option \<times> ('k, 'v) core \<times> ('k, 'v) entry list" where
  "core_Get now k c =
     (let dead = filter (expired now) (core_items c);
          live = filter (\<lambda>e. \<not> expired now e) (core_items c)
      in case find_entry k live of
           None \<Rightarrow> (None, c\<lparr>core_items := live\<rparr>, dead)
         | Some e \<Rightarrow> (Some (fst (snd e)), c\<lparr>core_items := e # drop_key k live\<rparr>, dead))"

definition core_Add ::
  "nat \<Rightarrow> 'k \<Rightarrow> 'v expirationLruItem \<Rightarrow> ('k, 'v) core \<Rightarrow> ('k, 'v) core \<times> ('k, 'v) entry list" where
  "core_Add now k it c =
     (case find_entry k (core_items c) of
        Some e \<Rightarrow> (c\<lparr>core_items := (k, it, now + core_ttl c) # drop_key k (core_items c)\<rparr>, [])
      | None \<Rightarrow>
          (case push_entry (core_size c) (k, it, now + core_ttl c) (core_items c) of
             (es, ev) \<Rightarrow> (c\<lparr>core_items := es\<rparr>, ev)))"

definition core_Remove :: "'k \<Rightarrow> ('k, 'v) core \<Rightarrow> bool \<times> ('k, 'v) core \<times> ('k, 'v) entry list" where
  "core_Remove k c =
     (case find_entry k (core_items c) of
        None \<Rightarrow> (False, c, [])
      | Some e \<Rightarrow> (True, c\<lparr>core_items := drop_key k (core_items c)\<rparr>,
                    if core_notify c then [e] else []))"

subsection \<open>ExpirationLRU\<close>

text \<open>\<open>xl_zero\<close> is the zero value of the type parameter \<open>V\<close>, the value of a fresh item.\<close>

record ('k, 'v) ExpirationLRU =
  xl_core :: "('k, 'v) core"
  xl_successTTL :: nat
  xl_failedTTL :: nat
  xl_zero :: 'v

definition NewExpirationLRU :: "nat \<Rightarrow> nat \<Rightarrow> nat \<Rightarrow> 'v \<Rightarrow> bool \<Rightarrow> ('k, 'v) ExpirationLRU" where
  "NewExpirationLRU sz successTTL failedTTL zero notify =
     \<lparr>xl_core = \<lparr>core_size = sz, core_ttl = successTTL, core_items = [], core_notify = notify\<rparr>,
      xl_successTTL = successTTL, xl_failedTTL = failedTTL, xl_zero = zero\<rparr>"

definition ExpirationLRU_Get ::
  "('k, 'v, 'w) EvictCallback \<Rightarrow> 'w Target \<Rightarrow> nat \<Rightarrow> 'k \<Rightarrow> ('v, 'w) fetcher \<Rightarrow>
   ('k, 'v) ExpirationLRU \<times> 'w \<Rightarrow> ('v \<times> error option) \<times> ('k, 'v) ExpirationLRU \<times> 'w" where
  "ExpirationLRU_Get cb target now key fetch xw =
     (case xw of (x, w) \<Rightarrow>
      (case core_Get now key (xl_core x) of
         (Some v, c1, ev1) \<Rightarrow>
           ((item_value v, item_err v), x\<lparr>xl_core := c1\<rparr>, IncrGetHit target (run_evict cb ev1 w))
       | (None, c1, ev1) \<Rightarrow>
           (case core_Add now key \<lparr>item_err = None, item_value = xl_zero x\<rparr> c1 of
              (c2, ev2) \<Rightarrow>
                (case fetch (run_evict cb ev2 (run_evict cb ev1 w)) of
                   ((val, err), w3) \<Rightarrow>
                     (let c3 = c2\<lparr>core_items :=
                                   store_item key \<lparr>item_err = err, item_value = val\<rparr> (core_items c2)\<rparr>
                      in if err = None then ((val, err), x\<lparr>xl_core := c3\<rparr>, IncrGetSuccess target w3)
                         else (case core_Remove key c3 of
                                 (ok, c4, ev4) \<Rightarrow>
                                   ((val, err), x\<lparr>xl_core := c4\<rparr>,
                                    run_evict cb ev4 (IncrGetFailed target w3))))))))"

definition ExpirationLRU_Del ::
  "('k, 'v, 'w) EvictCallback \<Rightarrow> 'w Target \<Rightarrow> 'k \<Rightarrow>
   ('k, 'v) ExpirationLRU \<times> 'w \<Rightarrow> bool \<times> ('k, 'v) ExpirationLRU \<times> 'w" where
  "ExpirationLRU_Del cb target key xw =
     (case xw of (x, w) \<Rightarrow>
      (case core_Remove key (xl_core x) of
         (ok, c1, ev) \<Rightarrow>
           (ok, x\<lparr>xl_core := c1\<rparr>,
            (if ok then IncrDelHit target else IncrDelNotFound target) (run_evict cb ev w))))"

subsection \<open>LazyLRU\<close>

text \<open>
  Modelled from the spec: the lazy-expiry shard \<open>LazyLRU\<close>, which is not among the sources.
  Each slot stores its own deadline. A read that finds the deadline of the slot in the past
  removes the stale entry without a callback and goes on as for an absent key. A miss
  inserts a pending slot (the least recently used entry leaves, with a callback, when the
  capacity is exceeded), runs the fetcher and stores the result: a success with the success
  TTL, a failure with the failure TTL. Whether an explicit delete runs the callback is left
  open by \<open>lz_notify\<close>, as for the expirable LRU.
\<close>

record ('k, 'v) LazyLRU =
  lz_size :: nat
  lz_items :: "('k, 'v) entry list"
  lz_successTTL :: nat
  lz_failedTTL :: nat
  lz_zero :: 'v
  lz_notify :: bool

definition NewLazyLRU :: "nat \<Rightarrow> nat \<Rightarrow> nat \<Rightarrow> 'v \<Rightarrow> bool \<Rightarrow> ('k, 'v) LazyLRU" where
  "NewLazyLRU sz successTTL failedTTL zero notify =
     \<lparr>lz_size = sz, lz_items = [], lz_successTTL = successTTL, lz_failedTTL = failedTTL,
      lz_zero = zero, lz_notify = notify\<rparr>"

definition LazyLRU_miss ::
  "('k, 'v, 'w) EvictCallback \<Rightarrow> 'w Target \<Rightarrow> nat \<Rightarrow> 'k \<Rightarrow> ('v, 'w) fetcher \<Rightarrow>
   ('k, 'v) LazyLRU \<times> 'w \<Rightarrow> ('v \<times> error option) \<times> ('k, 'v) LazyLRU \<times> 'w" where
  "LazyLRU_miss cb target now key fetch xw =
     (case xw of (x, w) \<Rightarrow>
      (case push_entry (lz_size x)
              (key, \<lparr>item_err = None, item_value = lz_zero x\<rparr>, now + lz_successTTL x) (lz_items x) of
         (es, ev) \<Rightarrow>
           (case fetch (run_evict cb ev w) of
              ((val, err), w2) \<Rightarrow>
                (let ttl = (if err = None then lz_successTTL x else lz_failedTTL x);
                     es' = map (\<lambda>e. if fst e = key
                                      then (key, \<lparr>item_err = err, item_value = val\<rparr>, now + ttl)
                                      else e) es
                 in ((val, err), x\<lparr>lz_items := es'\<rparr>,
                     (if err = None then IncrGetSuccess target else IncrGetFailed target) w2)))))"

definition LazyLRU_Get ::
  "('k, 'v, 'w) EvictCallback \<Rightarrow> 'w Target \<Rightarrow> nat \<Rightarrow> 'k \<Rightarrow> ('v, 'w) fetcher \<Rightarrow>
   ('k, 'v) LazyLRU \<times> 'w \<Rightarrow> ('v \<times> error option) \<times> ('k, 'v) LazyLRU \<times> 'w" where
  "LazyLRU_Get cb target now key fetch xw =
     (case xw of (x, w) \<Rightarrow>
      (case find_entry key (lz_items x) of
         Some e \<Rightarrow>
           if expired now e
           then LazyLRU_miss cb target now key fetch (x\<lparr>lz_items := drop_key key (lz_items x)\<rparr>, w)
           else ((item_value (fst (snd e)), item_err (fst (snd e))),
                 x\<lparr>lz_items := e # drop_key key (lz_items x)\<rparr>, IncrGetHit target w)
       | None \<Rightarrow> LazyLRU_miss cb target now key fetch (x, w)))"

definition LazyLRU_Del ::
  "('k, 'v, 'w) EvictCallback \<Rightarrow> 'w Target \<Rightarrow> 'k \<Rightarrow>
   ('k, 'v) LazyLRU \<times> 'w \<Rightarrow> bool \<times> ('k, 'v) LazyLRU \<times> 'w" where
  "LazyLRU_Del cb target key xw =
     (case xw of (x, w) \<Rightarrow>
      (case find_entry key (lz_items x) of
         None \<Rightarrow> (False, x, IncrDelNotFound target w)
       | Some e \<Rightarrow>
           (True, x\<lparr>lz_items := drop_key key (lz_items x)\<rparr>,
            IncrDelHit target (run_evict cb (if lz_notify x then [e] else []) w))))"

subsection \<open>The LRU interface and the sharded LRU\<close>

text \<open>
  The interface \<open>lru.LRU\<close> has three implementations. A shard is an \<open>ExpirationLRU\<close> or a
  \<open>LazyLRU\<close>.
\<close>

datatype 'v shard =
    ExpirationShard "(string, 'v) ExpirationLRU"
  | LazyShard "(string, 'v) LazyLRU"

fun shard_Get ::
  "(string, 'v, 'w) EvictCallback \<Rightarrow> 'w Target \<Rightarrow> nat \<Rightarrow> string \<Rightarrow> ('v, 'w) fetcher \<Rightarrow>
   'v shard \<times> 'w \<Rightarrow> ('v \<times> error option) \<times> 'v shard \<times> 'w" where
  "shard_Get cb target now key fetch (ExpirationShard x, w) =
     (case ExpirationLRU_Get cb target now key fetch (x, w) of
        (r, x', w') \<Rightarrow> (r, ExpirationShard x', w'))"
| "shard_Get cb target now key fetch (LazyShard x, w) =
     (case LazyLRU_Get cb target now key fetch (x, w) of
        (r, x', w') \<Rightarrow> (r, LazyShard x', w'))"

fun shard_Del ::
  "(string, 'v, 'w) EvictCallback \<Rightarrow> 'w Target \<Rightarrow> string \<Rightarrow>
   'v shard \<times> 'w \<Rightarrow> bool \<times> 'v shard \<times> 'w" where
  "shard_Del cb target key (ExpirationShard x, w) =
     (case ExpirationLRU_Del cb target key (x, w) of (ok, x', w') \<Rightarrow> (ok, ExpirationShard x', w'))"
| "shard_Del cb target key (LazyShard x, w) =
     (case LazyLRU_Del cb target key (x, w) of (ok, x', w') \<Rightarrow> (ok, LazyShard x', w'))"

text \<open>
  Modelled from the spec: the router \<open>SlotLRU\<close>, which is not among the sources. A 64-bit
  hash of the key modulo the number of shards selects the shard, and every operation is
  forwarded to the selected shard unchanged. As for the linkage graph, the shards are a
  total function of the index.
\<close>

datatype 'v LRU =
    Simple "'v shard"
  | SlotLRU "64 word" "64 word \<Rightarrow> 'v shard"

fun lru_shard :: "'v LRU \<Rightarrow> string \<Rightarrow> 'v shard" where
  "lru_shard (Simple s) key = s"
| "lru_shard (SlotLRU cnt shards) key = shards (LRUStringHash key mod cnt)"

fun lru_put :: "'v LRU \<Rightarrow> string \<Rightarrow> 'v shard \<Rightarrow> 'v LRU" where
  "lru_put (Simple s) key s' = Simple s'"
| "lru_put (SlotLRU cnt shards) key s' = SlotLRU cnt (shards(LRUStringHash key mod cnt := s'))"

definition lru_Get ::
  "(string, 'v, 'w) EvictCallback \<Rightarrow> 'w Target \<Rightarrow> nat \<Rightarrow> string \<Rightarrow> ('v, 'w) fetcher \<Rightarrow>
   'v LRU \<times> 'w \<Rightarrow> ('v \<times> error option) \<times> 'v LRU \<times> 'w" where
  "lru_Get cb target now key fetch lw =
     (case lw of (l, w) \<Rightarrow>
      (case shard_Get cb target now key fetch (lru_shard l key, w) of
         (r, s', w') \<Rightarrow> (r, lru_put l key s', w')))"

definition lru_Del ::
  "(string, 'v, 'w) EvictCallback \<Rightarrow> 'w Target \<Rightarrow> string \<Rightarrow>
   'v LRU \<times> 'w \<Rightarrow> bool \<times> 'v LRU \<times> 'w" where
  "lru_Del cb target key lw =
     (case lw of (l, w) \<Rightarrow>
      (case shard_Del cb target key (lru_shard l key, w) of
         (ok, s', w') \<Rightarrow> (ok, lru_put l key s', w')))"

text \<open>What the theorems observe of an LRU: the entries of a shard, and the entry cached for a key.\<close>

fun shard_items :: "'v shard \<Rightarrow> (string, 'v) entry list" where
  "shard_items (ExpirationShard x) = core_items (xl_core x)"
| "shard_items (LazyShard x) = lz_items x"

fun shard_size :: "'v shard \<Rightarrow> nat" where
  "shard_size (ExpirationShard x) = core_size (xl_core x)"
| "shard_size (LazyShard x) = lz_size x"

fun shard_ttl :: "'v shard \<Rightarrow> nat" where
  "shard_ttl (ExpirationShard x) = core_ttl (xl_core x)"
| "shard_ttl (LazyShard x) = lz_successTTL x"

definition cached :: "'v LRU \<Rightarrow> string \<Rightarrow> (string, 'v) entry option" where
  "cached l key = find_entry key (shard_items (lru_shard l key))"

text \<open>What an explicit delete does to a shard, and the entries it reports to the callback.\<close>

fun shard_drop :: "string \<Rightarrow> 'v shard \<Rightarrow> 'v shard" where
  "shard_drop key (ExpirationShard x) =
     ExpirationShard (x\<lparr>xl_core := (xl_core x)\<lparr>core_items := drop_key key (core_items (xl_core x))\<rparr>\<rparr>)"
| "shard_drop key (LazyShard x) = LazyShard (x\<lparr>lz_items := drop_key key (lz_items x)\<rparr>)"

fun shard_notify :: "'v shard \<Rightarrow> bool" where
  "shard_notify (ExpirationShard x) = core_notify (xl_core x)"
| "shard_notify (LazyShard x) = lz_notify x"

definition del_events :: "'v shard \<Rightarrow> string \<Rightarrow> (string, 'v) entry list" where
  "del_events s key =
     (case find_entry key (shard_items s) of
        None \<Rightarrow> []
      | Some e \<Rightarrow> if shard_notify s then [e] else [])"

definition lru_drop :: "string \<Rightarrow> 'v LRU \<Rightarrow> 'v LRU" where
  "lru_drop key l = lru_put l key (shard_drop key (lru_shard l key))"

text \<open>
  A key is cold in an LRU at an instant when its shard holds no unexpired entry for it.
\<close>

definition cold :: "nat \<Rightarrow> 'v LRU \<Rightarrow> string \<Rightarrow> bool" where
  "cold now l key \<longleftrightarrow>
     list_all (\<lambda>e. fst e = key \<longrightarrow> expired now e) (shard_items (lru_shard l key))"

fun is_expiration :: "'v shard \<Rightarrow> bool" where
  "is_expiration (ExpirationShard x) = True"
| "is_expiration (LazyShard x) = False"

text \<open>
  Shorthands for stating what a miss does: the fetcher runs in the world left by the
  callbacks for the entries \<open>ev\<close>, and the target counts its outcome.
\<close>

definition fetch_at ::
  "('k, 'v, 'w) EvictCallback \<Rightarrow> ('v, 'w) fetcher \<Rightarrow> ('k, 'v) entry list \<Rightarrow> 'w \<Rightarrow>
   ('v \<times> error option) \<times> 'w" where
  "fetch_at cb fetch ev w = fetch (run_evict cb ev w)"

definition count_fetch :: "'w Target \<Rightarrow> 'v \<times> error option \<Rightarrow> 'w \<Rightarrow> 'w" where
  "count_fetch tg r = (if snd r = None then IncrGetSuccess tg else IncrGetFailed tg)"

subsection \<open>An explicit delete, in closed form\<close>

lemma run_evict_Nil: "run_evict cb [] w = w"
  by (cases cb) simp_all

lemma drop_key_absent: "find_entry k es = None \<Longrightarrow> drop_key k es = es"
  by (induction es) (auto simp: find_entry_def drop_key_def split: if_splits)

lemma find_entry_fst: "find_entry k es = Some e \<Longrightarrow> fst e = k"
  by (auto simp: find_entry_def find_Some_iff)

lemma find_entry_drop_key:
  "find_entry a (drop_key k es) = (if a = k then None else find_entry a es)"
  by (induction es) (auto simp: find_entry_def drop_key_def)

lemma shard_Del_eq:
  "shard_Del cb target key (s, w) =
     (find_entry key (shard_items s) \<noteq> None, shard_drop key s,
      (if find_entry key (shard_items s) \<noteq> None then IncrDelHit target else IncrDelNotFound target)
        (run_evict cb (del_events s key) w))"
proof (cases s)
  case (ExpirationShard x)
  show ?thesis
  proof (cases "find_entry key (core_items (xl_core x))")
    case None
    then show ?thesis
      by (simp add: ExpirationShard ExpirationLRU_Del_def core_Remove_def del_events_def
          drop_key_absent run_evict_Nil)
  next
    case (Some e)
    then show ?thesis
      by (cases cb) (simp_all add: ExpirationShard ExpirationLRU_Del_def core_Remove_def del_events_def)
  qed
next
  case (LazyShard x)
  show ?thesis
  proof (cases "find_entry key (lz_items x)")
    case None
    then show ?thesis
      by (simp add: LazyShard LazyLRU_Del_def del_events_def drop_key_absent run_evict_Nil)
  next
    case (Some e)
    then show ?thesis
      by (cases cb) (simp_all add: LazyShard LazyLRU_Del_def del_events_def)
  qed
qed

lemma lru_Del_eq:
  "lru_Del cb target key (l, w) =
     (cached l key \<noteq> None, lru_drop key l,
      (if cached l key \<noteq> None then IncrDelHit target else IncrDelNotFound target)
        (run_evict cb (del_events (lru_shard l key) key) w))"
  by (simp add: lru_Del_def shard_Del_eq cached_def lru_drop_def)

lemma del_events_key: "e \<in> set (del_events s key) \<Longrightarrow> fst e = key"
  by (auto simp: del_events_def dest: find_entry_fst [OF sym] split: option.splits if_splits)

section \<open>The cache coordinator (package localcache)\<close>

text \<open>
  The options that \<open>New\<close> and \<open>Del\<close> read. The user's code (fetchers, the stats target,
  the hooks run before a delete) acts on a world \<open>'u\<close> of its own.
\<close>

record 'u cache_option =
  localSlotNum :: int
  localSlotSize :: int
  linkSlotNum :: int
  localSuccessTTL :: nat
  localFailedTTL :: nat
  expirationEvict :: bool
  target :: "'u Target"
  delFn :: "('u \<Rightarrow> string list \<Rightarrow> 'u) list"

text \<open>
  The cache: \<open>c_link\<close> and \<open>c_local\<close> are \<open>nil\<close> when linkage or local caching is disabled,
  \<open>c_pendingDel\<close> is the content of the buffered channel of capacity 100, \<open>c_once\<close> tells
  whether the goroutine that drains it was started, and \<open>c_user\<close> is the world of the
  user's code. The eviction callback and the wrapped fetcher act on the cache while an
  operation of the LRU runs: the world of the LRU's operations is the cache itself.
  The goroutine takes its turns between the operations of the cache (\<open>processPendingDeletes\<close>
  below); \<open>Stop\<close> is not part of this development.
\<close>

record ('v, 'u) cache =
  c_opt :: "'u cache_option"
  c_link :: "slot option"
  c_local :: "'v LRU option"
  c_pendingDel :: "string list list"
  c_once :: bool
  c_user :: 'u

definition createSimpleLRU :: "'u cache_option \<Rightarrow> 'v \<Rightarrow> bool \<Rightarrow> 'v shard" where
  "createSimpleLRU opt zero notify =
     (if expirationEvict opt
      then ExpirationShard (NewExpirationLRU (nat (localSlotSize opt)) (localSuccessTTL opt)
             (localFailedTTL opt) zero notify)
      else LazyShard (NewLazyLRU (nat (localSlotSize opt)) (localSuccessTTL opt)
             (localFailedTTL opt) zero notify))"

text \<open>
  \<open>New\<close>, applied to the options after the caller's changes, the zero value of \<open>V\<close>, the
  behaviour of the LRU library on explicit removal, and the initial world of the user.
  \<open>link.New\<close> is only called with a positive count, for which it returns a graph.
\<close>

definition cache_New :: "'u cache_option \<Rightarrow> 'v \<Rightarrow> bool \<Rightarrow> 'u \<Rightarrow> ('v, 'u) cache" where
  "cache_New opt zero notify u =
     (let enabled = (localSlotNum opt > 0 \<and> localSlotSize opt > 0)
      in \<lparr>c_opt = opt,
          c_link = (if enabled \<and> linkSlotNum opt > 0
                    then Some (projr (link_New (linkSlotNum opt))) else None),
          c_local = (if enabled
                     then Some (if localSlotNum opt = 1 then Simple (createSimpleLRU opt zero notify)
                                else SlotLRU (of_int (localSlotNum opt))
                                       (\<lambda>_. createSimpleLRU opt zero notify))
                     else None),
          c_pendingDel = [], c_once = False, c_user = u\<rparr>)"

definition on_user :: "('u \<Rightarrow> 'u) \<Rightarrow> ('v, 'u) cache \<Rightarrow> ('v, 'u) cache" where
  "on_user f c = c\<lparr>c_user := f (c_user c)\<rparr>"

definition cache_target :: "('v, 'u) cache \<Rightarrow> ('v, 'u) cache Target" where
  "cache_target c =
     \<lparr>IncrGetHit = on_user (IncrGetHit (target (c_opt c))),
      IncrGetSuccess = on_user (IncrGetSuccess (target (c_opt c))),
      IncrGetFailed = on_user (IncrGetFailed (target (c_opt c))),
      IncrDelHit = on_user (IncrDelHit (target (c_opt c))),
      IncrDelNotFound = on_user (IncrDelNotFound (target (c_opt c)))\<rparr>"

definition cache_onEvict :: "range_order \<Rightarrow> string \<Rightarrow> 'v \<Rightarrow> ('v, 'u) cache \<Rightarrow> ('v, 'u) cache" where
  "cache_onEvict rng key val c =
     (case c_link c of
        None \<Rightarrow> c
      | Some lk \<Rightarrow>
          (case slot_Del rng key lk of
             (linkedKeys, lk') \<Rightarrow>
               (let c1 = c\<lparr>c_link := Some lk'\<rparr>
                in if fcard linkedKeys > 0
                   then (let keys = filter (\<lambda>k. k \<noteq> key) (range_over rng linkedKeys)
                         in if length keys > 0
                            then (let c2 = c1\<lparr>c_once := True\<rparr>
                                  in if length (c_pendingDel c2) < 100
                                     then c2\<lparr>c_pendingDel := c_pendingDel c2 @ [keys]\<rparr>
                                     else c2)
                            else c1)
                   else c1)))"

text \<open>\<open>c.local.Del(curr)\<close>, with the callback and the target that \<open>New\<close> gave the LRU.\<close>

definition local_Del :: "range_order \<Rightarrow> string \<Rightarrow> ('v, 'u) cache \<Rightarrow> ('v, 'u) cache" where
  "local_Del rng key c =
     (case c_local c of
        None \<Rightarrow> c
      | Some l \<Rightarrow>
          (case lru_Del (Some (cache_onEvict rng)) (cache_target c) key (l, c) of
             (ok, l', c') \<Rightarrow> c'\<lparr>c_local := Some l'\<rparr>))"



text \<open>
  The part of an iteration of \<open>del\<close> that consults the linkage graph: it returns the cache
  and the keys appended to the queue.
\<close>

definition del_links ::
  "range_order \<Rightarrow> keyset \<Rightarrow> string \<Rightarrow> ('v, 'u) cache \<Rightarrow> ('v, 'u) cache \<times> string list" where
  "del_links rng deleted cur c =
     (case c_link c of
        None \<Rightarrow> (c, [])
      | Some lk \<Rightarrow>
          (case slot_Del rng cur lk of
             (linkedKeys, lk') \<Rightarrow>
               (c\<lparr>c_link := Some lk'\<rparr>,
                filter (\<lambda>k. k |\<notin>| deleted) (range_over rng linkedKeys))))"

definition link_size :: "('v, 'u) cache \<Rightarrow> nat" where
  "link_size c = (case c_link c of None \<Rightarrow> 0 | Some lk \<Rightarrow> graph_size lk)"

lemma on_user_fields:
  "c_link (on_user f c) = c_link c"
  "c_local (on_user f c) = c_local c"
  "c_pendingDel (on_user f c) = c_pendingDel c"
  "c_once (on_user f c) = c_once c"
  "c_opt (on_user f c) = c_opt c"
  "c_user (on_user f c) = f (c_user c)"
  by (simp_all add: on_user_def)

lemma on_user_size: "link_size (on_user f c) = link_size c"
  by (simp add: on_user_def link_size_def)

lemma link_size_local: "link_size (c\<lparr>c_local := l\<rparr>) = link_size c"
  by (simp add: link_size_def)

lemma cache_onEvict_size: "link_size (cache_onEvict rng key val c) \<le> link_size c"
proof (cases "c_link c")
  case None
  then show ?thesis by (simp add: cache_onEvict_def)
next
  case (Some lk)
  obtain D lk' where r: "slot_Del rng key lk = (D, lk')"
    by (cases "slot_Del rng key lk")
  have "graph_size lk' \<le> graph_size lk"
    using slot_Del_size_le [of rng key lk] by (simp add: r)
  then show ?thesis
    by (simp add: cache_onEvict_def Some r link_size_def Let_def)
qed

lemma run_evict_size:
  "link_size (run_evict (Some (cache_onEvict rng)) ev c) \<le> link_size c"
proof (induction ev arbitrary: c)
  case Nil
  then show ?case by simp
next
  case (Cons e ev)
  have "link_size (run_evict (Some (cache_onEvict rng)) ev
           (cache_onEvict rng (fst e) (item_value (fst (snd e))) c))
        \<le> link_size (cache_onEvict rng (fst e) (item_value (fst (snd e))) c)"
    by (rule Cons.IH)
  also have "\<dots> \<le> link_size c"
    by (rule cache_onEvict_size)
  finally show ?case by simp
qed

lemma local_Del_size: "link_size (local_Del rng key c) \<le> link_size c"
proof (cases "c_local c")
  case None
  then show ?thesis by (simp add: local_Del_def)
next
  case (Some l)
  have "link_size (local_Del rng key c)
      = link_size (run_evict (Some (cache_onEvict rng)) (del_events (lru_shard l key) key) c)"
    unfolding local_Del_def Some lru_Del_eq
    by (simp add: cache_target_def on_user_size link_size_local del: run_evict.simps)
  then show ?thesis
    by (simp add: run_evict_size del: run_evict.simps)
qed

lemma del_links_size: "link_size (fst (del_links rng deleted cur c)) \<le> link_size c"
proof (cases "c_link c")
  case None
  then show ?thesis by (simp add: del_links_def)
next
  case (Some lk)
  obtain D lk' where r: "slot_Del rng cur lk = (D, lk')"
    by (cases "slot_Del rng cur lk")
  show ?thesis
    using slot_Del_size_le [of rng cur lk]
    by (simp add: del_links_def link_size_def Some r)
qed

lemma del_links_progress:
  assumes "cur |\<in>| deleted"
  shows "link_size (fst (del_links rng deleted cur c)) < link_size c
       \<or> snd (del_links rng deleted cur c) = []"
proof (cases "c_link c")
  case None
  then show ?thesis by (simp add: del_links_def)
next
  case (Some lk)
  show ?thesis
  proof (cases "stored lk (slot_index lk cur) cur")
    case None
    then have "slot_Del rng cur lk = ({|cur|}, lk)"
      by (rule slot_Del_absent)
    then show ?thesis
      using assms by (simp add: del_links_def Some range_over_single)
  next
    case (Some ks)
    obtain D lk' where r: "slot_Del rng cur lk = (D, lk')"
      by (cases "slot_Del rng cur lk")
    from Some have "graph_size (snd (slot_Del rng cur lk)) < graph_size lk"
      by (intro slot_Del_size_less) (simp add: stored_def)
    then show ?thesis
      by (simp add: del_links_def \<open>c_link c = Some lk\<close> link_size_def r)
  qed
qed

text \<open>The loop of \<open>del\<close>: \<open>deleted\<close> are the keys already handled, \<open>toDelete\<close> is the queue.\<close>

function cache_del_loop ::
  "range_order \<Rightarrow> keyset \<Rightarrow> string list \<Rightarrow> ('v, 'u) cache \<Rightarrow> ('v, 'u) cache" where
  "cache_del_loop rng deleted toDelete c =
     (case toDelete of
        [] \<Rightarrow> c
      | cur # rest \<Rightarrow>
          if cur |\<in>| deleted then cache_del_loop rng deleted rest c
          else (case del_links rng (finsert cur deleted) cur c of
                  (c1, pushed) \<Rightarrow>
                    cache_del_loop rng (finsert cur deleted) (rest @ pushed) (local_Del rng cur c1)))"
  by pat_completeness auto
termination
proof (relation "measures [\<lambda>(rng, deleted, toDelete, c). link_size c,
                           \<lambda>(rng, deleted, toDelete, c). length toDelete]", goal_cases)
  case 1
  then show ?case by simp
next
  case (2 rng deleted toDelete c cur rest)
  then show ?case by simp
next
  case (3 rng deleted toDelete c cur rest c1 pushed)
  have a: "link_size (local_Del rng cur c1) \<le> link_size c1"
    by (rule local_Del_size)
  have b: "link_size c1 \<le> link_size c"
    using del_links_size [of rng "finsert cur deleted" cur c] 3 by (metis fst_conv)
  have c: "link_size c1 < link_size c \<or> pushed = []"
    using del_links_progress [of cur "finsert cur deleted" rng c] 3 by (metis finsertI1 fst_conv snd_conv)
  from a b c 3(1) show ?case
    by auto
qed

declare cache_del_loop.simps [simp del]

definition cache_del :: "range_order \<Rightarrow> string list \<Rightarrow> ('v, 'u) cache \<Rightarrow> ('v, 'u) cache" where
  "cache_del rng key c = (if c_local c = None then c else cache_del_loop rng {||} key c)"

text \<open>The fetcher that \<open>GetLink\<close> hands to the LRU registers the links, then fetches.\<close>

definition link_fetch ::
  "string \<Rightarrow> ('v, 'u) fetcher \<Rightarrow> string list \<Rightarrow> ('v, ('v, 'u) cache) fetcher" where
  "link_fetch key fetch link c =
     (let c1 = (case c_link c of
                  Some lk \<Rightarrow> if length link > 0 then c\<lparr>c_link := Some (slot_Link key link lk)\<rparr> else c
                | None \<Rightarrow> c)
      in case fetch (c_user c1) of (r, u) \<Rightarrow> (r, c1\<lparr>c_user := u\<rparr>))"

definition cache_GetLink ::
  "range_order \<Rightarrow> nat \<Rightarrow> string \<Rightarrow> ('v, 'u) fetcher \<Rightarrow> string list \<Rightarrow> ('v, 'u) cache \<Rightarrow>
   ('v \<times> error option) \<times> ('v, 'u) cache" where
  "cache_GetLink rng now key fetch link c =
     (case c_local c of
        Some l \<Rightarrow>
          (case lru_Get (Some (cache_onEvict rng)) (cache_target c) now key
                  (link_fetch key fetch link) (l, c) of
             (r, l', c') \<Rightarrow> (r, c'\<lparr>c_local := Some l'\<rparr>))
      | None \<Rightarrow> (case fetch (c_user c) of (r, u) \<Rightarrow> (r, c\<lparr>c_user := u\<rparr>)))"

definition cache_Get ::
  "range_order \<Rightarrow> nat \<Rightarrow> string \<Rightarrow> ('v, 'u) fetcher \<Rightarrow> ('v, 'u) cache \<Rightarrow>
   ('v \<times> error option) \<times> ('v, 'u) cache" where
  "cache_Get rng now key fetch c = cache_GetLink rng now key fetch [] c"

definition cache_Del :: "range_order \<Rightarrow> string list \<Rightarrow> ('v, 'u) cache \<Rightarrow> ('v, 'u) cache" where
  "cache_Del rng key c =
     cache_del rng key (c\<lparr>c_user := fold (\<lambda>fn u. fn u key) (delFn (c_opt c)) (c_user c)\<rparr>)"

definition cache_DelLocal :: "range_order \<Rightarrow> string list \<Rightarrow> ('v, 'u) cache \<Rightarrow> ('v, 'u) cache" where
  "cache_DelLocal rng key c = cache_del rng key c"

text \<open>What the theorems observe of a cache.\<close>

definition cache_cached :: "('v, 'u) cache \<Rightarrow> string \<Rightarrow> (string, 'v) entry option" where
  "cache_cached c key = (case c_local c of None \<Rightarrow> None | Some l \<Rightarrow> cached l key)"

definition absent_link :: "string \<Rightarrow> ('v, 'u) cache \<Rightarrow> bool" where
  "absent_link key c =
     (case c_link c of None \<Rightarrow> True | Some lk \<Rightarrow> stored lk (slot_index lk key) key = None)"

definition contents :: "('v, 'u) cache \<Rightarrow> 'v LRU option \<times> slot option" where
  "contents c = (c_local c, c_link c)"

text \<open>A key is settled when the cache holds neither an entry nor an adjacency entry for it.\<close>

definition settled :: "string \<Rightarrow> ('v, 'u) cache \<Rightarrow> bool" where
  "settled key c \<longleftrightarrow> absent_link key c \<and> cache_cached c key = None"



text \<open>The links \<open>link(a, b)\<close>, \<open>link(b, c)\<close>, \<open>link(c, d)\<close>, established in this order.\<close>

definition chain_links :: "string \<Rightarrow> string \<Rightarrow> string \<Rightarrow> string \<Rightarrow> slot \<Rightarrow> slot" where
  "chain_links a b c d lk = slot_Link c [d] (slot_Link b [c] (slot_Link a [b] lk))"

subsection \<open>A cache as the tests build it\<close>

text \<open>
  The world of the tests: the counter that their fetchers increment, and the five counters
  of the stats target of \<open>TestCache_Target\<close>.
\<close>

record stats =
  fetchCount :: nat
  hits :: nat
  successes :: nat
  failures :: nat
  delHits :: nat
  delNotFound :: nat

definition stats0 :: stats where
  "stats0 = \<lparr>fetchCount = 0, hits = 0, successes = 0, failures = 0, delHits = 0, delNotFound = 0\<rparr>"

definition testTarget :: "stats Target" where
  "testTarget =
     \<lparr>IncrGetHit = (\<lambda>w. w\<lparr>hits := hits w + 1\<rparr>),
      IncrGetSuccess = (\<lambda>w. w\<lparr>successes := successes w + 1\<rparr>),
      IncrGetFailed = (\<lambda>w. w\<lparr>failures := failures w + 1\<rparr>),
      IncrDelHit = (\<lambda>w. w\<lparr>delHits := delHits w + 1\<rparr>),
      IncrDelNotFound = (\<lambda>w. w\<lparr>delNotFound := delNotFound w + 1\<rparr>)\<rparr>"

text \<open>
  \<open>WithLocalSlotNum(1), WithLocalSlotSize(10)\<close>, a success TTL of 60 and a failure TTL
  of 5; the eviction mode and the number of linkage shards are the parameters.
\<close>

definition test_option :: "bool \<Rightarrow> int \<Rightarrow> stats cache_option" where
  "test_option active links =
     \<lparr>localSlotNum = 1, localSlotSize = 10, linkSlotNum = links, localSuccessTTL = 60,
      localFailedTTL = 5, expirationEvict = active, target = testTarget, delFn = []\<rparr>"

definition test_cache :: "bool \<Rightarrow> int \<Rightarrow> (string, stats) cache" where
  "test_cache active links = cache_New (test_option active links) [] True stats0"

definition fetch_value :: "string \<Rightarrow> (string, stats) fetcher" where
  "fetch_value v w = ((v, None), w\<lparr>fetchCount := fetchCount w + 1\<rparr>)"

definition fetch_error :: "error \<Rightarrow> (string, stats) fetcher" where
  "fetch_error e w = (([], Some e), w\<lparr>fetchCount := fetchCount w + 1\<rparr>)"

text \<open>The LRU of such a cache, in lazy and in active mode.\<close>

definition test_lazy :: "string LRU" where
  "test_lazy = Simple (LazyShard (NewLazyLRU 10 60 5 [] True))"

definition test_active :: "string LRU" where
  "test_active = Simple (ExpirationShard (NewExpirationLRU 10 60 5 [] True))"

text \<open>A cache with linkage disabled in which \<open>b\<close> was fetched at instant 0.\<close>

definition test_cache_b :: "(string, stats) cache" where
  "test_cache_b = snd (cache_Get range_sorted 0 ''b'' (fetch_value ''vb'') (test_cache False 0))"




text \<open>
  A cache in active mode with ten linkage shards in which \<open>a\<close>, \<open>b\<close>, \<open>c\<close>, \<open>d\<close> and \<open>e\<close>
  were fetched at instant 0, in this order.
\<close>

definition populated_cache :: "(string, stats) cache" where
  "populated_cache =
     fold (\<lambda>k c. snd (cache_Get range_sorted 0 k (fetch_value (''v'' @ k)) c))
       [''a'', ''b'', ''c'', ''d'', ''e''] (test_cache True 10)"

definition populated_lru :: "string LRU" where
  "populated_lru =
     Simple (ExpirationShard
       \<lparr>xl_core = \<lparr>core_size = 10, core_ttl = 60,
                    core_items = [(''e'', \<lparr>item_err = None, item_value = ''ve''\<rparr>, 60),
                                  (''d'', \<lparr>item_err = None, item_value = ''vd''\<rparr>, 60),
                                  (''c'', \<lparr>item_err = None, item_value = ''vc''\<rparr>, 60),
                                  (''b'', \<lparr>item_err = None, item_value = ''vb''\<rparr>, 60),
                                  (''a'', \<lparr>item_err = None, item_value = ''va''\<rparr>, 60)],
                    core_notify = True\<rparr>,
        xl_successTTL = 60, xl_failedTTL = 5, xl_zero = []\<rparr>)"
section \<open>Properties of the linkage graph\<close>

lemma slot_index_cong: "slot_n x' = slot_n x \<Longrightarrow> slot_index x' s = slot_index x s"
  by (simp add: slot_index_def)

lemma shard_del_fst: "fst (shard_del k x) = stored x (slot_index x k) k"
  by (simp add: shard_del_def linkKey_del_def stored_def split: option.splits)

lemma shard_del_n: "slot_n (snd (shard_del k x)) = slot_n x"
  by (simp add: shard_del_def linkKey_del_def split: option.splits)

lemma shard_del_stored:
  "stored (snd (shard_del k x)) i a =
     (if i = slot_index x k \<and> a = k then None else stored x i a)"
  by (simp add: shard_del_def linkKey_del_def stored_def split: option.splits)

lemma shard_del_adj:
  "adj (snd (shard_del k x)) a = (if a = k then {||} else adj x a)"
  by (simp add: adj_def shard_del_stored slot_index_cong [OF shard_del_n])

lemma set_range_over: "set (range_over rng S) = fset S"
proof -
  have "fset_of_list (range_over rng S) = S"
    using range_over [of rng] by simp
  then show ?thesis
    by (metis fset_of_list.rep_eq)
qed

lemma range_keys_set:
  "set (range_keys rng (stored x (slot_index x k) k)) = fset (adj x k)"
  by (cases "stored x (slot_index x k) k") (simp_all add: adj_def set_range_over)

subsection \<open>Reachability when one node stops being expanded\<close>

lemma rtrancl_no_out:
  assumes "(a, y) \<in> E\<^sup>*" and "\<And>b. (a, b) \<notin> E"
  shows "y = a"
  using assms by (induction rule: converse_rtrancl_induct) auto

lemma rtrancl_cut:
  assumes "(a, y) \<in> E\<^sup>*" and E': "E' = {(p, q). (p, q) \<in> E \<and> p \<noteq> c}"
  shows "y = c \<or> (a, y) \<in> E'\<^sup>* \<or> (\<exists>d. (c, d) \<in> E \<and> (d, y) \<in> E'\<^sup>*)"
  using assms(1)
proof (induction rule: rtrancl_induct)
  case base
  then show ?case by simp
next
  case (step y z)
  show ?case
  proof (cases "y = c")
    case True
    with step.hyps show ?thesis by blast
  next
    case False
    with step.hyps have yz: "(y, z) \<in> E'" by (simp add: E')
    from step.IH False consider "(a, y) \<in> E'\<^sup>*" | d where "(c, d) \<in> E" "(d, y) \<in> E'\<^sup>*"
      by blast
    then show ?thesis
    proof cases
      case 1
      with yz have "(a, z) \<in> E'\<^sup>*" by (meson rtrancl_into_rtrancl)
      then show ?thesis by simp
    next
      case 2
      from 2(2) yz have "(d, z) \<in> E'\<^sup>*" by (meson rtrancl_into_rtrancl)
      with 2(1) show ?thesis by blast
    qed
  qed
qed

lemma reach_expand:
  assumes E': "E' = {(p, q). (p, q) \<in> E \<and> p \<noteq> c}"
  shows "E\<^sup>* `` insert c S = insert c (E'\<^sup>* `` (S \<union> E `` {c}))"
proof (rule set_eqI, rule iffI)
  fix y
  assume "y \<in> E\<^sup>* `` insert c S"
  then obtain a where a: "a \<in> insert c S" "(a, y) \<in> E\<^sup>*" by blast
  from rtrancl_cut [OF a(2) E']
  consider "y = c" | "(a, y) \<in> E'\<^sup>*" | d where "(c, d) \<in> E" "(d, y) \<in> E'\<^sup>*" by blast
  then show "y \<in> insert c (E'\<^sup>* `` (S \<union> E `` {c}))"
  proof cases
    case 1
    then show ?thesis by simp
  next
    case 2
    show ?thesis
    proof (cases "a = c")
      case True
      have "y = c"
        using rtrancl_no_out [of c y E'] 2 True by (simp add: E')
      then show ?thesis by simp
    next
      case False
      with a(1) 2 show ?thesis by blast
    qed
  next
    case 3
    then show ?thesis by blast
  qed
next
  fix y
  assume y: "y \<in> insert c (E'\<^sup>* `` (S \<union> E `` {c}))"
  have sub: "E'\<^sup>* \<subseteq> E\<^sup>*"
    by (rule rtrancl_mono) (auto simp: E')
  show "y \<in> E\<^sup>* `` insert c S"
  proof (cases "y = c")
    case True
    then show ?thesis by blast
  next
    case False
    with y obtain a where a: "a \<in> S \<union> E `` {c}" "(a, y) \<in> E'\<^sup>*" by blast
    with sub have ay: "(a, y) \<in> E\<^sup>*" by blast
    show ?thesis
    proof (cases "a \<in> S")
      case True
      with ay show ?thesis by blast
    next
      case False
      with a(1) have "(c, a) \<in> E" by blast
      with ay have "(c, y) \<in> E\<^sup>*" by (meson converse_rtrancl_into_rtrancl)
      then show ?thesis by blast
    qed
  qed
qed
subsection \<open>What the traversal of \<open>delKey\<close> computes\<close>

lemma live_edges_step:
  assumes "cur |\<notin>| del"
  shows "live_edges (snd (shard_del cur x)) (finsert cur del)
           = {(p, q). (p, q) \<in> live_edges x del \<and> p \<noteq> cur}"
  by (auto simp: live_edges_def shard_del_adj)

lemma live_edges_succ:
  assumes "cur |\<notin>| del"
  shows "live_edges x del `` {cur} = fset (adj x cur)"
  using assms by (auto simp: live_edges_def)

lemma live_edges_dead:
  assumes "cur |\<in>| del"
  shows "(live_edges x del)\<^sup>* `` {cur} = {cur}"
proof -
  have "\<And>y. (cur, y) \<in> (live_edges x del)\<^sup>* \<Longrightarrow> y = cur"
    by (rule rtrancl_no_out) (auto simp: live_edges_def assms)
  then show ?thesis by blast
qed

lemma delKey_loop_spec:
  "(case delKey_loop rng del stack x of (D, x') \<Rightarrow>
            slot_n x' = slot_n x \<and>
            fset D = fset del \<union> (live_edges x del)\<^sup>* `` set stack \<and>
            (\<forall>i a. stored x' i a =
               (if a |\<in>| D \<and> a |\<notin>| del \<and> i = slot_index x a then None else stored x i a)))"
proof (induction rng del stack x rule: delKey_loop.induct)
  case (1 rng del stack x)
  show ?case
  proof (cases "stack = []")
    case True
    then show ?thesis by (subst delKey_loop.simps) simp
  next
    case ne: False
    define cur where "cur = last stack"
    define st where "st = butlast stack"
    have stack: "stack = st @ [cur]"
      using ne by (simp add: cur_def st_def)
    have split: "(live_edges x del)\<^sup>* `` set stack
        = (live_edges x del)\<^sup>* `` insert cur (set st)"
      by (simp add: stack)
    show ?thesis
    proof (cases "cur |\<in>| del")
      case True
      have eq: "delKey_loop rng del stack x = delKey_loop rng del st x"
        using ne True by (subst delKey_loop.simps) (simp add: cur_def st_def Let_def)
      have ih: "(case delKey_loop rng del st x of (D, x') \<Rightarrow>
            slot_n x' = slot_n x \<and>
            fset D = fset del \<union> (live_edges x del)\<^sup>* `` set st \<and>
            (\<forall>i a. stored x' i a =
               (if a |\<in>| D \<and> a |\<notin>| del \<and> i = slot_index x a then None else stored x i a)))"
        using "1.IH"(1) [OF ne cur_def st_def True] by simp
      have "(live_edges x del)\<^sup>* `` insert cur (set st)
          = {cur} \<union> (live_edges x del)\<^sup>* `` set st"
        using live_edges_dead [OF True, of x] by blast
      with True have "fset del \<union> (live_edges x del)\<^sup>* `` set stack
          = fset del \<union> (live_edges x del)\<^sup>* `` set st"
        unfolding split by auto
      with ih show ?thesis
        unfolding eq by (auto split: prod.splits)
    next
      case False
      define ck where "ck = fst (shard_del cur x)"
      define x1 where "x1 = snd (shard_del cur x)"
      define del1 where "del1 = finsert cur del"
      define st1 where "st1 = st @ range_keys rng ck"
      have sd: "shard_del cur x = (ck, x1)"
        by (simp add: ck_def x1_def)
      have eq: "delKey_loop rng del stack x = delKey_loop rng del1 st1 x1"
        using ne False
        by (subst delKey_loop.simps) (simp add: cur_def st_def Let_def sd [unfolded cur_def] del1_def st1_def)
      have ih: "(case delKey_loop rng del1 st1 x1 of (D, x') \<Rightarrow>
            slot_n x' = slot_n x1 \<and>
            fset D = fset del1 \<union> (live_edges x1 del1)\<^sup>* `` set st1 \<and>
            (\<forall>i a. stored x' i a =
               (if a |\<in>| D \<and> a |\<notin>| del1 \<and> i = slot_index x1 a then None else stored x1 i a)))"
        using "1.IH"(2) [OF ne cur_def st_def False sd [symmetric]]
        by (simp add: del1_def st1_def)
      have n1: "slot_n x1 = slot_n x"
        by (simp add: x1_def shard_del_n)
      have idx: "\<And>s. slot_index x1 s = slot_index x s"
        by (rule slot_index_cong [OF n1])
      have E1: "live_edges x1 del1 = {(p, q). (p, q) \<in> live_edges x del \<and> p \<noteq> cur}"
        unfolding x1_def del1_def by (rule live_edges_step [OF False])
      have ch: "set (range_keys rng ck) = live_edges x del `` {cur}"
        unfolding ck_def shard_del_fst
        by (simp add: range_keys_set live_edges_succ [OF False])
      have "(live_edges x del)\<^sup>* `` insert cur (set st)
          = insert cur ((live_edges x1 del1)\<^sup>* `` (set st \<union> live_edges x del `` {cur}))"
        by (rule reach_expand [OF E1])
      then have reach: "fset del \<union> (live_edges x del)\<^sup>* `` set stack
          = fset del1 \<union> (live_edges x1 del1)\<^sup>* `` set st1"
        unfolding split by (simp add: del1_def st1_def ch)
      have st: "\<And>i a. stored x1 i a = (if i = slot_index x cur \<and> a = cur then None else stored x i a)"
        by (simp add: x1_def shard_del_stored)
      obtain D x' where res: "delKey_loop rng del1 st1 x1 = (D, x')"
        by (cases "delKey_loop rng del1 st1 x1")
      from ih res have a: "slot_n x' = slot_n x1"
        and b: "fset D = fset del1 \<union> (live_edges x1 del1)\<^sup>* `` set st1"
        and c: "\<And>i a. stored x' i a =
               (if a |\<in>| D \<and> a |\<notin>| del1 \<and> i = slot_index x1 a then None else stored x1 i a)"
        by simp_all
      have cD: "cur |\<in>| D"
        using b by (simp add: del1_def)
      have "\<And>i a. stored x' i a =
               (if a |\<in>| D \<and> a |\<notin>| del \<and> i = slot_index x a then None else stored x i a)"
        using cD False by (auto simp: c st idx del1_def)
      with a b n1 reach show ?thesis
        unfolding eq res by simp
    qed
  qed
qed

lemma delKey_spec:
  assumes "delKey rng k x = (D, x')"
  shows "slot_n x' = slot_n x"
    and "fset D = reachable x k"
    and "stored x' i a = (if a |\<in>| D \<and> i = slot_index x a then None else stored x i a)"
proof -
  have le: "live_edges x {||} = edges x"
    by (simp add: live_edges_def edges_def)
  from delKey_loop_spec [where rng = rng and del = "{||}" and stack = "[k]" and x = x] assms
  show "slot_n x' = slot_n x" and "fset D = reachable x k"
    and "stored x' i a = (if a |\<in>| D \<and> i = slot_index x a then None else stored x i a)"
    by (simp_all add: delKey_def le reachable_def)
qed
subsection \<open>The concrete range order\<close>

lemma range_sorted_empty: "range_over range_sorted {||} = []"
  by (simp add: range_sorted.rep_eq sorted_list_of_fset.rep_eq)

lemma range_sorted_single: "range_over range_sorted {|a|} = [a]"
  by (simp add: range_sorted.rep_eq sorted_list_of_fset.rep_eq)

lemmas link_eval = slot_Del_def delKey_def slot_Link_def shard_link_def linkKey_link_def
  newLinkKey_def shard_del_def linkKey_del_def range_sorted_single range_sorted_empty
  delKey_loop.simps slot_index_def adj_def stored_def graph10_def Let_def fnv64a_def

lemma link_New_10: "link_New 10 = Inr graph10"
  by (simp add: link_New_def graph10_def)

subsection \<open>What \<open>Link\<close> does to the adjacency\<close>

lemma shard_link_n: "slot_n (shard_link key link x) = slot_n x"
  by (simp add: shard_link_def)

lemma fold_finsert: "fold finsert xs S = S |\<union>| fset_of_list xs"
  by (induction xs arbitrary: S) auto

lemma shard_link_stored:
  "stored (shard_link key link x) i a =
     (if i = slot_index x key \<and> a = key then Some (adj x key |\<union>| fset_of_list link)
      else stored x i a)"
  by (simp add: shard_link_def linkKey_link_def stored_def adj_def fold_finsert
      split: option.splits)

lemma shard_link_adj:
  "adj (shard_link key link x) a =
     (if a = key then adj x key |\<union>| fset_of_list link else adj x a)"
  by (simp add: adj_def shard_link_stored slot_index_cong [OF shard_link_n])

lemma fold_shard_link_n:
  "slot_n (fold (\<lambda>lk. shard_link lk [key]) link x) = slot_n x"
  by (induction link arbitrary: x) (simp_all add: shard_link_n)

lemma fold_shard_link_adj:
  "adj (fold (\<lambda>lk. shard_link lk [key]) link x) a =
     (if a \<in> set link then finsert key (adj x a) else adj x a)"
  by (induction link arbitrary: x) (auto simp: shard_link_adj)

lemma slot_Link_n: "slot_n (slot_Link key link x) = slot_n x"
  by (simp add: slot_Link_def fold_shard_link_n shard_link_n)

lemma slot_Link_adj:
  "adj (slot_Link key link x) a =
     (if a = key then adj x a |\<union>| fset_of_list link else adj x a)
     |\<union>| (if a \<in> set link then {|key|} else {||})"
  by (auto simp: slot_Link_def fold_shard_link_adj shard_link_adj)

lemma slot_Link_symmetric: "symmetric x \<Longrightarrow> symmetric (slot_Link key link x)"
  unfolding symmetric_def slot_Link_adj
  by (auto simp: fset_of_list.rep_eq)

subsection \<open>What \<open>Del\<close> does to the adjacency\<close>

lemma slot_Del_adj:
  "adj (snd (slot_Del rng k x)) a = (if a \<in> reachable x k then {||} else adj x a)"
proof -
  obtain D x' where r: "delKey rng k x = (D, x')"
    by (cases "delKey rng k x")
  note s = delKey_spec [OF r]
  have "slot_index x' a = slot_index x a"
    by (rule slot_index_cong [OF s(1)])
  then show ?thesis
    using s(2) by (simp add: slot_Del_def r adj_def s(3))
qed

lemma reachable_closed:
  "a \<in> reachable x k \<Longrightarrow> b |\<in>| adj x a \<Longrightarrow> b \<in> reachable x k"
  unfolding reachable_def edges_def
  by (auto intro: rtrancl_into_rtrancl)

lemma slot_Del_symmetric:
  assumes "symmetric x"
  shows "symmetric (snd (slot_Del rng k x))"
proof -
  have "\<And>a b. b |\<in>| adj x a \<Longrightarrow> a \<in> reachable x k \<longleftrightarrow> b \<in> reachable x k"
    using assms reachable_closed [of _ x k] unfolding symmetric_def by blast
  then show ?thesis
    using assms unfolding symmetric_def slot_Del_adj by auto
qed

lemma link_New_symmetric: "link_New cnt = Inr x \<Longrightarrow> symmetric x"
  by (auto simp: link_New_def symmetric_def adj_def stored_def newLinkKey_def split: if_splits)

lemma apply_link_op_symmetric:
  "symmetric x \<Longrightarrow> symmetric (apply_link_op rng op x)"
  by (cases op) (simp_all add: slot_Link_symmetric slot_Del_symmetric)

lemma fold_link_op_symmetric:
  "symmetric x \<Longrightarrow> symmetric (fold (apply_link_op rng) ops x)"
  by (induction ops arbitrary: x) (simp_all add: apply_link_op_symmetric)
section \<open>Properties of the shard LRU\<close>

subsection \<open>Entries of a list\<close>

lemma find_entry_None_iff: "find_entry k es = None \<longleftrightarrow> (\<forall>e\<in>set es. fst e \<noteq> k)"
  by (force simp: find_entry_def find_None_iff)

lemma find_entry_filter:
  "find_entry k es = Some e \<Longrightarrow> P e \<Longrightarrow> find_entry k (filter P es) = Some e"
  by (induction es) (auto simp: find_entry_def split: if_splits)

lemma find_entry_filter_cold:
  "list_all (\<lambda>e. fst e = k \<longrightarrow> expired now e) es \<Longrightarrow>
   find_entry k (filter (\<lambda>e. \<not> expired now e) es) = None"
  by (auto simp: find_entry_None_iff list_all_iff)

lemma find_entry_head: "find_entry k ((k, it, d) # es) = Some (k, it, d)"
  by (simp add: find_entry_def)

lemma push_entry_head:
  assumes "1 \<le> cap"
  shows "\<exists>es'. fst (push_entry cap (k, it, d) es) = (k, it, d) # es'"
proof (cases "cap < length ((k, it, d) # es)")
  case True
  with assms have "es \<noteq> []" by auto
  then have "butlast ((k, it, d) # es) = (k, it, d) # butlast es" by simp
  with True show ?thesis by (simp add: push_entry_def)
next
  case False
  then show ?thesis by (simp add: push_entry_def)
qed

lemma store_item_head:
  "store_item k it ((k, it0, d) # es) = (k, it, d) # store_item k it es"
  by (simp add: store_item_def)

lemma find_entry_store_item_None:
  "find_entry k es = None \<Longrightarrow> find_entry k (store_item k it es) = None"
  by (auto simp: find_entry_None_iff store_item_def)

lemma find_entry_drop_key_same: "find_entry k (drop_key k es) = None"
  by (simp add: find_entry_drop_key)

subsection \<open>\<open>Get\<close> on a shard\<close>

lemma ExpirationLRU_Get_hit:
  assumes "find_entry key (core_items (xl_core x)) = Some e" and "\<not> expired now e"
  shows "\<exists>x' ev. ExpirationLRU_Get cb tg now key fetch (x, w) =
           ((item_value (fst (snd e)), item_err (fst (snd e))), x',
            IncrGetHit tg (run_evict cb ev w))"
proof -
  have "find_entry key (filter (\<lambda>e. \<not> expired now e) (core_items (xl_core x))) = Some e"
    using assms by (rule find_entry_filter)
  then have "ExpirationLRU_Get cb tg now key fetch (x, w) =
           ((item_value (fst (snd e)), item_err (fst (snd e))),
            x\<lparr>xl_core := (xl_core x)\<lparr>core_items :=
                 e # drop_key key (filter (\<lambda>e. \<not> expired now e) (core_items (xl_core x)))\<rparr>\<rparr>,
            IncrGetHit tg (run_evict cb (filter (expired now) (core_items (xl_core x))) w))"
    by (simp add: ExpirationLRU_Get_def core_Get_def Let_def)
  then show ?thesis by blast
qed

lemma LazyLRU_Get_hit:
  assumes "find_entry key (lz_items x) = Some e" and "\<not> expired now e"
  shows "\<exists>x' ev. LazyLRU_Get cb tg now key fetch (x, w) =
           ((item_value (fst (snd e)), item_err (fst (snd e))), x',
            IncrGetHit tg (run_evict cb ev w))"
proof -
  have "LazyLRU_Get cb tg now key fetch (x, w) =
           ((item_value (fst (snd e)), item_err (fst (snd e))),
            x\<lparr>lz_items := e # drop_key key (lz_items x)\<rparr>,
            IncrGetHit tg (run_evict cb [] w))"
    using assms by (simp add: LazyLRU_Get_def run_evict_Nil)
  then show ?thesis by blast
qed

lemma shard_Get_hit:
  assumes "find_entry key (shard_items s) = Some e" and "\<not> expired now e"
  shows "\<exists>s' ev. shard_Get cb tg now key fetch (s, w) =
           ((item_value (fst (snd e)), item_err (fst (snd e))), s',
            IncrGetHit tg (run_evict cb ev w))"
proof (cases s)
  case (ExpirationShard x)
  with assms ExpirationLRU_Get_hit [of key x e now cb tg fetch w]
  show ?thesis by auto
next
  case (LazyShard x)
  with assms LazyLRU_Get_hit [of key x e now cb tg fetch w]
  show ?thesis by auto
qed
lemma run_evict_append: "run_evict cb (ev1 @ ev2) w = run_evict cb ev2 (run_evict cb ev1 w)"
  by (cases cb) simp_all

lemma ExpirationLRU_Get_miss:
  assumes cold: "list_all (\<lambda>e. fst e = key \<longrightarrow> expired now e) (core_items (xl_core x))"
  shows "\<exists>x' ev ev'.
           ExpirationLRU_Get cb tg now key fetch (x, w) =
             (fst (fetch_at cb fetch ev w), x',
              run_evict cb ev'
                (count_fetch tg (fst (fetch_at cb fetch ev w)) (snd (fetch_at cb fetch ev w))))
         \<and> (snd (fst (fetch_at cb fetch ev w)) = None \<and> 1 \<le> core_size (xl_core x) \<longrightarrow>
              find_entry key (core_items (xl_core x')) =
                Some (key, \<lparr>item_err = None, item_value = fst (fst (fetch_at cb fetch ev w))\<rparr>,
                      now + core_ttl (xl_core x)))
         \<and> (snd (fst (fetch_at cb fetch ev w)) \<noteq> None \<longrightarrow>
              find_entry key (core_items (xl_core x')) = None)"
proof -
  define live where "live = filter (\<lambda>e. \<not> expired now e) (core_items (xl_core x))"
  define dead where "dead = filter (expired now) (core_items (xl_core x))"
  define d where "d = now + core_ttl (xl_core x)"
  define zero where "zero = \<lparr>item_err = None, item_value = xl_zero x\<rparr>"
  obtain es ev2 where pe: "push_entry (core_size (xl_core x)) (key, zero, d) live = (es, ev2)"
    by (cases "push_entry (core_size (xl_core x)) (key, zero, d) live")
  define ev where "ev = dead @ ev2"
  obtain val err w3 where f: "fetch (run_evict cb ev w) = ((val, err), w3)"
    by (cases "fetch (run_evict cb ev w)") auto
  have fa: "fetch_at cb fetch ev w = ((val, err), w3)"
    by (simp add: fetch_at_def f)
  define it where "it = \<lparr>item_err = err, item_value = val\<rparr>"
  have fl: "find_entry key live = None"
    unfolding live_def using cold by (rule find_entry_filter_cold)
  have get: "core_Get now key (xl_core x) = (None, (xl_core x)\<lparr>core_items := live\<rparr>, dead)"
    using fl by (simp add: core_Get_def Let_def live_def dead_def)
  have add: "core_Add now key zero ((xl_core x)\<lparr>core_items := live\<rparr>)
               = ((xl_core x)\<lparr>core_items := es\<rparr>, ev2)"
    using fl pe by (simp add: core_Add_def d_def)
  have f': "fetch (run_evict cb ev2 (run_evict cb dead w)) = ((val, err), w3)"
    using f by (simp add: ev_def run_evict_append)
  show ?thesis
  proof (cases "err = None")
    case True
    define x' where "x' = x\<lparr>xl_core := (xl_core x)\<lparr>core_items := store_item key it es\<rparr>\<rparr>"
    have eq: "ExpirationLRU_Get cb tg now key fetch (x, w) =
                ((val, err), x', run_evict cb [] (IncrGetSuccess tg (w3)))"
      using True
      by (simp add: ExpirationLRU_Get_def get add [unfolded zero_def] f' x'_def it_def Let_def run_evict_Nil)
    have "1 \<le> core_size (xl_core x) \<Longrightarrow>
            find_entry key (core_items (xl_core x')) = Some (key, it, d)"
    proof -
      assume "1 \<le> core_size (xl_core x)"
      from push_entry_head [OF this, of key zero d live] pe
      obtain es' where "es = (key, zero, d) # es'" by auto
      then show ?thesis
        by (simp add: x'_def store_item_head find_entry_head)
    qed
    with eq True show ?thesis
      by (intro exI [of _ x'] exI [of _ ev] exI [of _ "[]"]) (simp add: it_def d_def fa count_fetch_def)
  next
    case False
    then obtain y where y: "err = Some y" by auto
    define c3 where "c3 = (xl_core x)\<lparr>core_items := store_item key it es\<rparr>"
    obtain ok c4 ev4 where rm: "core_Remove key c3 = (ok, c4, ev4)"
      by (cases "core_Remove key c3")
    define x' where "x' = x\<lparr>xl_core := c4\<rparr>"
    have eq: "ExpirationLRU_Get cb tg now key fetch (x, w) =
                ((val, err), x', run_evict cb ev4 (IncrGetFailed tg (w3)))"
      using rm [unfolded c3_def it_def]
      by (simp add: ExpirationLRU_Get_def get add [unfolded zero_def] f' x'_def Let_def y)
    have "find_entry key (core_items c4) = None"
      using rm
      by (auto simp: core_Remove_def find_entry_drop_key_same split: option.splits)
    with eq show ?thesis
      by (intro exI [of _ x'] exI [of _ ev] exI [of _ ev4])
         (simp add: x'_def fa count_fetch_def y)
  qed
qed
lemma LazyLRU_miss_spec:
  "\<exists>x' ev.
     LazyLRU_miss cb tg now key fetch (x, w) =
       (fst (fetch_at cb fetch ev w), x',
        run_evict cb []
          (count_fetch tg (fst (fetch_at cb fetch ev w)) (snd (fetch_at cb fetch ev w))))
     \<and> (snd (fst (fetch_at cb fetch ev w)) = None \<and> 1 \<le> lz_size x \<longrightarrow>
          find_entry key (lz_items x') =
            Some (key, \<lparr>item_err = None, item_value = fst (fst (fetch_at cb fetch ev w))\<rparr>,
                  now + lz_successTTL x))"
proof -
  define zero where "zero = \<lparr>item_err = None, item_value = lz_zero x\<rparr>"
  define d where "d = now + lz_successTTL x"
  obtain es ev where pe: "push_entry (lz_size x) (key, zero, d) (lz_items x) = (es, ev)"
    by (cases "push_entry (lz_size x) (key, zero, d) (lz_items x)")
  obtain val err w2 where f: "fetch (run_evict cb ev w) = ((val, err), w2)"
    by (cases "fetch (run_evict cb ev w)") auto
  have fa: "fetch_at cb fetch ev w = ((val, err), w2)"
    by (simp add: fetch_at_def f)
  define ttl where "ttl = (if err = None then lz_successTTL x else lz_failedTTL x)"
  define es' where "es' = map (\<lambda>e. if fst e = key
                                      then (key, \<lparr>item_err = err, item_value = val\<rparr>, now + ttl)
                                      else e) es"
  define x' where "x' = x\<lparr>lz_items := es'\<rparr>"
  have eq: "LazyLRU_miss cb tg now key fetch (x, w) =
              ((val, err), x', run_evict cb [] (count_fetch tg (val, err) w2))"
    by (simp add: LazyLRU_miss_def pe [unfolded zero_def d_def] f Let_def x'_def es'_def ttl_def
        count_fetch_def run_evict_Nil)
  have "err = None \<Longrightarrow> 1 \<le> lz_size x \<Longrightarrow>
          find_entry key (lz_items x') = Some (key, \<lparr>item_err = None, item_value = val\<rparr>, d)"
  proof -
    assume e: "err = None" and "1 \<le> lz_size x"
    from push_entry_head [OF this(2), of key zero d "lz_items x"] pe
    obtain tl where "es = (key, zero, d) # tl" by auto
    then show ?thesis
      by (simp add: x'_def es'_def ttl_def e d_def find_entry_def)
  qed
  with eq show ?thesis
    by (intro exI [of _ x'] exI [of _ ev]) (simp add: fa d_def)
qed

lemma LazyLRU_Get_miss:
  assumes cold: "list_all (\<lambda>e. fst e = key \<longrightarrow> expired now e) (lz_items x)"
  shows "\<exists>x' ev ev'.
           LazyLRU_Get cb tg now key fetch (x, w) =
             (fst (fetch_at cb fetch ev w), x',
              run_evict cb ev'
                (count_fetch tg (fst (fetch_at cb fetch ev w)) (snd (fetch_at cb fetch ev w))))
         \<and> (snd (fst (fetch_at cb fetch ev w)) = None \<and> 1 \<le> lz_size x \<longrightarrow>
              find_entry key (lz_items x') =
                Some (key, \<lparr>item_err = None, item_value = fst (fst (fetch_at cb fetch ev w))\<rparr>,
                      now + lz_successTTL x))"
proof (cases "find_entry key (lz_items x)")
  case None
  then have "LazyLRU_Get cb tg now key fetch (x, w) = LazyLRU_miss cb tg now key fetch (x, w)"
    by (simp add: LazyLRU_Get_def)
  with LazyLRU_miss_spec [of cb tg now key fetch x w] show ?thesis
    by metis
next
  case (Some e)
  then have "e \<in> set (lz_items x)" "fst e = key"
    by (auto simp: find_entry_def find_Some_iff)
  with cold have "expired now e"
    by (auto simp: list_all_iff)
  with Some have "LazyLRU_Get cb tg now key fetch (x, w)
      = LazyLRU_miss cb tg now key fetch (x\<lparr>lz_items := drop_key key (lz_items x)\<rparr>, w)"
    by (simp add: LazyLRU_Get_def)
  with LazyLRU_miss_spec [of cb tg now key fetch "x\<lparr>lz_items := drop_key key (lz_items x)\<rparr>" w]
  show ?thesis
    by (simp del: run_evict.simps) metis
qed

lemma shard_Get_miss:
  assumes cold: "list_all (\<lambda>e. fst e = key \<longrightarrow> expired now e) (shard_items s)"
  shows "\<exists>s' ev ev'.
           shard_Get cb tg now key fetch (s, w) =
             (fst (fetch_at cb fetch ev w), s',
              run_evict cb ev'
                (count_fetch tg (fst (fetch_at cb fetch ev w)) (snd (fetch_at cb fetch ev w))))
         \<and> (snd (fst (fetch_at cb fetch ev w)) = None \<and> 1 \<le> shard_size s \<longrightarrow>
              find_entry key (shard_items s') =
                Some (key, \<lparr>item_err = None, item_value = fst (fst (fetch_at cb fetch ev w))\<rparr>,
                      now + shard_ttl s))
         \<and> (snd (fst (fetch_at cb fetch ev w)) \<noteq> None \<and> is_expiration s \<longrightarrow>
              find_entry key (shard_items s') = None)"
proof (cases s)
  case (ExpirationShard x)
  from cold ExpirationLRU_Get_miss [of key now x cb tg fetch w]
  obtain x' ev ev' where
    "ExpirationLRU_Get cb tg now key fetch (x, w) =
             (fst (fetch_at cb fetch ev w), x',
              run_evict cb ev'
                (count_fetch tg (fst (fetch_at cb fetch ev w)) (snd (fetch_at cb fetch ev w))))"
    "snd (fst (fetch_at cb fetch ev w)) = None \<and> 1 \<le> core_size (xl_core x) \<longrightarrow>
              find_entry key (core_items (xl_core x')) =
                Some (key, \<lparr>item_err = None, item_value = fst (fst (fetch_at cb fetch ev w))\<rparr>,
                      now + core_ttl (xl_core x))"
    "snd (fst (fetch_at cb fetch ev w)) \<noteq> None \<longrightarrow>
              find_entry key (core_items (xl_core x')) = None"
    unfolding ExpirationShard by auto
  then show ?thesis
    unfolding ExpirationShard
    by (intro exI [of _ "ExpirationShard x'"] exI [of _ ev] exI [of _ ev']) simp
next
  case (LazyShard x)
  from cold LazyLRU_Get_miss [of key now x cb tg fetch w]
  obtain x' ev ev' where
    "LazyLRU_Get cb tg now key fetch (x, w) =
             (fst (fetch_at cb fetch ev w), x',
              run_evict cb ev'
                (count_fetch tg (fst (fetch_at cb fetch ev w)) (snd (fetch_at cb fetch ev w))))"
    "snd (fst (fetch_at cb fetch ev w)) = None \<and> 1 \<le> lz_size x \<longrightarrow>
              find_entry key (lz_items x') =
                Some (key, \<lparr>item_err = None, item_value = fst (fst (fetch_at cb fetch ev w))\<rparr>,
                      now + lz_successTTL x)"
    unfolding LazyShard by auto
  then show ?thesis
    unfolding LazyShard
    by (intro exI [of _ "LazyShard x'"] exI [of _ ev] exI [of _ ev']) simp
qed

subsection \<open>\<open>Get\<close> and \<open>Del\<close> through the router\<close>

lemma lru_shard_put: "lru_shard (lru_put l key s) key = s"
  by (cases l) simp_all

lemma lru_Get_hit:
  assumes "cached l key = Some e" and "\<not> expired now e"
  shows "\<exists>l' ev. lru_Get cb tg now key fetch (l, w) =
           ((item_value (fst (snd e)), item_err (fst (snd e))), l',
            IncrGetHit tg (run_evict cb ev w))"
proof -
  from assms shard_Get_hit [of key "lru_shard l key" e now cb tg fetch w]
  obtain s' ev where "shard_Get cb tg now key fetch (lru_shard l key, w) =
           ((item_value (fst (snd e)), item_err (fst (snd e))), s',
            IncrGetHit tg (run_evict cb ev w))"
    by (auto simp: cached_def)
  then show ?thesis
    by (intro exI [of _ "lru_put l key s'"] exI [of _ ev])
       (simp add: lru_Get_def del: run_evict.simps)
qed

lemma lru_Get_miss:
  assumes "cold now l key"
  shows "\<exists>l' ev ev'.
           lru_Get cb tg now key fetch (l, w) =
             (fst (fetch_at cb fetch ev w), l',
              run_evict cb ev'
                (count_fetch tg (fst (fetch_at cb fetch ev w)) (snd (fetch_at cb fetch ev w))))
         \<and> (snd (fst (fetch_at cb fetch ev w)) = None \<and> 1 \<le> shard_size (lru_shard l key) \<longrightarrow>
              cached l' key =
                Some (key, \<lparr>item_err = None, item_value = fst (fst (fetch_at cb fetch ev w))\<rparr>,
                      now + shard_ttl (lru_shard l key)))
         \<and> (snd (fst (fetch_at cb fetch ev w)) \<noteq> None \<and> is_expiration (lru_shard l key) \<longrightarrow>
              cached l' key = None)"
proof -
  from assms shard_Get_miss [of key now "lru_shard l key" cb tg fetch w]
  obtain s' ev ev' where
    "shard_Get cb tg now key fetch (lru_shard l key, w) =
             (fst (fetch_at cb fetch ev w), s',
              run_evict cb ev'
                (count_fetch tg (fst (fetch_at cb fetch ev w)) (snd (fetch_at cb fetch ev w))))"
    "snd (fst (fetch_at cb fetch ev w)) = None \<and> 1 \<le> shard_size (lru_shard l key) \<longrightarrow>
              find_entry key (shard_items s') =
                Some (key, \<lparr>item_err = None, item_value = fst (fst (fetch_at cb fetch ev w))\<rparr>,
                      now + shard_ttl (lru_shard l key))"
    "snd (fst (fetch_at cb fetch ev w)) \<noteq> None \<and> is_expiration (lru_shard l key) \<longrightarrow>
              find_entry key (shard_items s') = None"
    unfolding cold_def by blast
  then show ?thesis
    by (intro exI [of _ "lru_put l key s'"] exI [of _ ev] exI [of _ ev'])
       (simp add: lru_Get_def cached_def lru_shard_put del: run_evict.simps)
qed

lemma cached_None_cold: "cached l key = None \<Longrightarrow> cold now l key"
  by (auto simp: cached_def cold_def find_entry_None_iff list_all_iff)

lemma cached_lru_drop: "cached (lru_drop k l) a = (if a = k then None else cached l a)"
proof (cases l)
  case (Simple s)
  then show ?thesis
    by (cases s) (simp_all add: cached_def lru_drop_def find_entry_drop_key)
next
  case (SlotLRU cnt shards)
  show ?thesis
  proof (cases "LRUStringHash a mod cnt = LRUStringHash k mod cnt")
    case True
    then show ?thesis
      by (cases "shards (LRUStringHash k mod cnt)")
         (simp_all add: SlotLRU cached_def lru_drop_def find_entry_drop_key)
  next
    case False
    then show ?thesis
      by (auto simp: SlotLRU cached_def lru_drop_def)
  qed
qed

lemma shard_drop_absent: "find_entry k (shard_items s) = None \<Longrightarrow> shard_drop k s = s"
  by (cases s) (simp_all add: drop_key_absent)

lemma lru_drop_absent: "cached l k = None \<Longrightarrow> lru_drop k l = l"
  by (cases l) (simp_all add: lru_drop_def cached_def shard_drop_absent)
section \<open>Properties of the cache coordinator\<close>

subsection \<open>The eviction callback\<close>

lemma cache_onEvict_fields:
  "c_user (cache_onEvict rng key val c) = c_user c"
  "c_opt (cache_onEvict rng key val c) = c_opt c"
  "c_local (cache_onEvict rng key val c) = c_local c"
  by (simp_all add: cache_onEvict_def Let_def split: option.splits prod.splits)

lemma cache_onEvict_no_link: "c_link c = None \<Longrightarrow> cache_onEvict rng key val c = c"
  by (simp add: cache_onEvict_def)

lemma cache_onEvict_absent:
  assumes "absent_link key c"
  shows "cache_onEvict rng key val c = c"
proof (cases "c_link c")
  case None
  then show ?thesis by (rule cache_onEvict_no_link)
next
  case (Some lk)
  with assms have "slot_Del rng key lk = ({|key|}, lk)"
    by (simp add: absent_link_def slot_Del_absent)
  moreover have "c\<lparr>c_link := Some lk\<rparr> = c"
    using Some by simp
  ultimately show ?thesis
    by (simp add: cache_onEvict_def Some range_over_single Let_def)
qed

lemma run_evict_fields:
  "c_user (run_evict (Some (cache_onEvict rng)) ev c) = c_user c"
  "c_opt (run_evict (Some (cache_onEvict rng)) ev c) = c_opt c"
  "c_local (run_evict (Some (cache_onEvict rng)) ev c) = c_local c"
  by (induction ev arbitrary: c) (simp_all add: cache_onEvict_fields)

lemma run_evict_no_link:
  "c_link c = None \<Longrightarrow> run_evict (Some (cache_onEvict rng)) ev c = c"
  by (induction ev arbitrary: c) (simp_all add: cache_onEvict_no_link)

lemma run_evict_absent:
  "absent_link key c \<Longrightarrow> \<forall>e\<in>set ev. fst e = key \<Longrightarrow>
   run_evict (Some (cache_onEvict rng)) ev c = c"
  by (induction ev arbitrary: c) (simp_all add: cache_onEvict_absent)

subsection \<open>\<open>c.local.Del\<close>\<close>

lemma local_Del_local: "c_local (local_Del rng key c) = map_option (lru_drop key) (c_local c)"
  by (cases "c_local c") (simp_all add: local_Del_def lru_Del_eq)


lemma local_Del_absent:
  assumes "absent_link key c"
  shows "c_link (local_Del rng key c) = c_link c"
    and "c_pendingDel (local_Del rng key c) = c_pendingDel c"
    and "c_once (local_Del rng key c) = c_once c"
proof -
  have "\<And>l. run_evict (Some (cache_onEvict rng)) (del_events (lru_shard l key) key) c = c"
    by (rule run_evict_absent [OF assms]) (auto dest: del_events_key)
  then show "c_link (local_Del rng key c) = c_link c"
    and "c_pendingDel (local_Del rng key c) = c_pendingDel c"
    and "c_once (local_Del rng key c) = c_once c"
    by (cases "c_local c";
        simp add: local_Del_def lru_Del_eq cache_target_def on_user_fields del: run_evict.simps)+
qed

subsection \<open>One iteration of \<open>del\<close>\<close>

lemma del_links_fst:
  "fst (del_links rng deleted cur c) = c\<lparr>c_link := map_option (\<lambda>lk. snd (slot_Del rng cur lk)) (c_link c)\<rparr>"
  by (cases "c_link c") (simp_all add: del_links_def split: prod.splits)

lemma del_links_snd:
  "set (snd (del_links rng deleted cur c)) =
     (case c_link c of None \<Rightarrow> {} | Some lk \<Rightarrow> {k \<in> reachable lk cur. k |\<notin>| deleted})"
proof (cases "c_link c")
  case None
  then show ?thesis by (simp add: del_links_def)
next
  case (Some lk)
  obtain D lk' where r: "slot_Del rng cur lk = (D, lk')"
    by (cases "slot_Del rng cur lk")
  then have "fset D = reachable lk cur"
    using delKey_spec(2) [of rng cur lk D lk'] by (simp add: slot_Del_def)
  then show ?thesis
    by (auto simp: del_links_def Some r set_range_over)
qed

lemma reachable_self: "k \<in> reachable x k"
  by (simp add: reachable_def)

lemma slot_Del_stored:
  "stored (snd (slot_Del rng k x)) i a =
     (if a \<in> reachable x k \<and> i = slot_index x a then None else stored x i a)"
proof -
  obtain D x' where r: "delKey rng k x = (D, x')"
    by (cases "delKey rng k x")
  note s = delKey_spec [OF r]
  show ?thesis
    using s(2) by (simp add: slot_Del_def r s(3))
qed

lemma slot_Del_n: "slot_n (snd (slot_Del rng k x)) = slot_n x"
proof -
  obtain D x' where r: "delKey rng k x = (D, x')"
    by (cases "delKey rng k x")
  show ?thesis
    using delKey_spec(1) [OF r] by (simp add: slot_Del_def r)
qed

lemma slot_Del_absent_after:
  "a \<in> reachable x k \<or> stored x (slot_index x a) a = None \<Longrightarrow>
   stored (snd (slot_Del rng k x)) (slot_index (snd (slot_Del rng k x)) a) a = None"
  by (auto simp: slot_Del_stored slot_index_cong [OF slot_Del_n])

lemma del_links_absent:
  "a |\<in>| deleted' \<and> a = cur \<or> absent_link a c \<or>
     (case c_link c of None \<Rightarrow> False | Some lk \<Rightarrow> a \<in> reachable lk cur) \<Longrightarrow>
   absent_link a (fst (del_links rng deleted cur c))"
proof (cases "c_link c")
  case None
  then show ?thesis by (simp add: del_links_fst absent_link_def)
next
  case (Some lk)
  assume "a |\<in>| deleted' \<and> a = cur \<or> absent_link a c \<or>
     (case c_link c of None \<Rightarrow> False | Some lk \<Rightarrow> a \<in> reachable lk cur)"
  then have "a \<in> reachable lk cur \<or> stored lk (slot_index lk a) a = None"
    using Some reachable_self [of cur lk] by (auto simp: absent_link_def)
  then show ?thesis
    by (simp add: del_links_fst absent_link_def Some slot_Del_absent_after)
qed
subsection \<open>The loop of \<open>del\<close>\<close>

lemma cache_del_loop_Nil: "cache_del_loop rng deleted [] c = c"
  by (subst cache_del_loop.simps) simp

lemma cache_del_loop_skip:
  "cur |\<in>| deleted \<Longrightarrow>
   cache_del_loop rng deleted (cur # rest) c = cache_del_loop rng deleted rest c"
  by (subst cache_del_loop.simps) simp

lemma cache_del_loop_step:
  "cur |\<notin>| deleted \<Longrightarrow>
   cache_del_loop rng deleted (cur # rest) c =
     cache_del_loop rng (finsert cur deleted)
       (rest @ snd (del_links rng (finsert cur deleted) cur c))
       (local_Del rng cur (fst (del_links rng (finsert cur deleted) cur c)))"
  by (subst cache_del_loop.simps) (simp split: prod.splits)

lemma step_absent_cur: "absent_link cur (fst (del_links rng deleted cur c))"
proof (cases "c_link c")
  case None
  then show ?thesis by (simp add: del_links_fst absent_link_def)
next
  case (Some lk)
  then show ?thesis
    by (simp add: del_links_fst absent_link_def slot_Del_absent_after reachable_self)
qed

lemma step_link:
  "c_link (local_Del rng cur (fst (del_links rng deleted cur c)))
     = map_option (\<lambda>lk. snd (slot_Del rng cur lk)) (c_link c)"
  unfolding local_Del_absent(1) [OF step_absent_cur] by (simp add: del_links_fst)

lemma step_local:
  "c_local (local_Del rng cur (fst (del_links rng deleted cur c)))
     = map_option (lru_drop cur) (c_local c)"
  by (simp add: local_Del_local del_links_fst)

lemma step_settled:
  assumes "settled k c \<or> k = cur"
  shows "settled k (local_Del rng cur (fst (del_links rng deleted cur c)))"
proof -
  let ?c1 = "fst (del_links rng deleted cur c)"
  have a1: "absent_link k ?c1"
  proof (cases "k = cur")
    case True
    then show ?thesis by (simp add: step_absent_cur)
  next
    case False
    with assms have "absent_link k c" by (simp add: settled_def)
    then show ?thesis by (rule del_links_absent [OF disjI2, OF disjI1])
  qed
  have "c_link (local_Del rng cur ?c1) = c_link ?c1"
    by (rule local_Del_absent(1) [OF step_absent_cur])
  with a1 have a2: "absent_link k (local_Del rng cur ?c1)"
    by (simp add: absent_link_def)
  have "cache_cached (local_Del rng cur ?c1) k = None"
    using assms
    by (cases "c_local c")
       (auto simp: cache_cached_def step_local cached_lru_drop settled_def)
  with a2 show ?thesis
    by (simp add: settled_def)
qed

lemma cache_del_loop_settled:
  assumes "\<forall>k. k |\<in>| deleted \<longrightarrow> settled k c"
  shows "\<forall>k. k |\<in>| deleted \<or> k \<in> set toDelete \<longrightarrow> settled k (cache_del_loop rng deleted toDelete c)"
  using assms
proof (induction rng deleted toDelete c rule: cache_del_loop.induct)
  case (1 rng deleted toDelete c)
  show ?case
  proof (cases toDelete)
    case Nil
    with "1.prems" show ?thesis by (simp add: cache_del_loop_Nil)
  next
    case (Cons cur rest)
    show ?thesis
    proof (cases "cur |\<in>| deleted")
      case True
      from "1.IH"(1) [OF Cons True "1.prems"] True show ?thesis
        by (auto simp: Cons cache_del_loop_skip)
    next
      case False
      let ?d = "finsert cur deleted"
      let ?c1 = "fst (del_links rng ?d cur c)"
      let ?p = "snd (del_links rng ?d cur c)"
      have inv: "\<forall>k. k |\<in>| ?d \<longrightarrow> settled k (local_Del rng cur ?c1)"
        using "1.prems" by (auto intro: step_settled)
      from "1.IH"(2) [OF Cons False prod.collapse inv] show ?thesis
        by (auto simp: Cons cache_del_loop_step [OF False])
    qed
  qed
qed

lemma cache_del_loop_local:
  "c_local (cache_del_loop rng deleted toDelete c) = None \<longleftrightarrow> c_local c = None"
proof (induction rng deleted toDelete c rule: cache_del_loop.induct)
  case (1 rng deleted toDelete c)
  show ?case
  proof (cases toDelete)
    case Nil
    then show ?thesis by (simp add: cache_del_loop_Nil)
  next
    case (Cons cur rest)
    show ?thesis
    proof (cases "cur |\<in>| deleted")
      case True
      from "1.IH"(1) [OF Cons True] True show ?thesis
        by (simp add: Cons cache_del_loop_skip)
    next
      case False
      from "1.IH"(2) [OF Cons False prod.collapse] show ?thesis
        by (simp add: Cons cache_del_loop_step [OF False] step_local)
    qed
  qed
qed

lemma cache_del_loop_links_off:
  "c_link c = None \<Longrightarrow>
   c_link (cache_del_loop rng deleted toDelete c) = None"
proof (induction rng deleted toDelete c rule: cache_del_loop.induct)
  case (1 rng deleted toDelete c)
  show ?case
  proof (cases toDelete)
    case Nil
    with "1.prems" show ?thesis by (simp add: cache_del_loop_Nil)
  next
    case (Cons cur rest)
    show ?thesis
    proof (cases "cur |\<in>| deleted")
      case True
      from "1.IH"(1) [OF Cons True "1.prems"] True show ?thesis
        by (simp add: Cons cache_del_loop_skip)
    next
      case False
      have "c_link (local_Del rng cur (fst (del_links rng (finsert cur deleted) cur c))) = None"
        using "1.prems" by (simp add: step_link)
      from "1.IH"(2) [OF Cons False prod.collapse this] show ?thesis
        by (simp add: Cons cache_del_loop_step [OF False])
    qed
  qed
qed
subsection \<open>\<open>GetLink\<close>\<close>

lemma link_fetch_facts:
  "fst (link_fetch key fetch link c) = fst (fetch (c_user c))"
  "c_user (snd (link_fetch key fetch link c)) = snd (fetch (c_user c))"
  "c_opt (snd (link_fetch key fetch link c)) = c_opt c"
  "c_link c = None \<Longrightarrow> c_link (snd (link_fetch key fetch link c)) = None"
  by (simp_all add: link_fetch_def Let_def split: option.splits prod.splits)

lemma count_fetch_cache_target:
  "count_fetch (cache_target c) r = on_user (count_fetch (target (c_opt c)) r)"
  by (simp add: count_fetch_def cache_target_def)

lemma cache_GetLink_hit:
  assumes "c_local c = Some l" and "cached l key = Some e" and "\<not> expired now e"
  shows "fst (cache_GetLink rng now key fetch link c) = (item_value (fst (snd e)), item_err (fst (snd e)))"
    and "c_user (snd (cache_GetLink rng now key fetch link c)) = IncrGetHit (target (c_opt c)) (c_user c)"
    and "c_opt (snd (cache_GetLink rng now key fetch link c)) = c_opt c"
proof -
  from lru_Get_hit [OF assms(2,3), of "Some (cache_onEvict rng)" "cache_target c"
      "link_fetch key fetch link" c]
  obtain l' ev where g: "lru_Get (Some (cache_onEvict rng)) (cache_target c) now key
      (link_fetch key fetch link) (l, c) =
        ((item_value (fst (snd e)), item_err (fst (snd e))), l',
         IncrGetHit (cache_target c) (run_evict (Some (cache_onEvict rng)) ev c))"
    by blast
  have t: "IncrGetHit (cache_target c) = on_user (IncrGetHit (target (c_opt c)))"
    by (simp add: cache_target_def)
  show "fst (cache_GetLink rng now key fetch link c) = (item_value (fst (snd e)), item_err (fst (snd e)))"
    and "c_user (snd (cache_GetLink rng now key fetch link c)) = IncrGetHit (target (c_opt c)) (c_user c)"
    and "c_opt (snd (cache_GetLink rng now key fetch link c)) = c_opt c"
    unfolding cache_GetLink_def assms(1) option.case g t
    by (simp_all add: on_user_fields run_evict_fields del: run_evict.simps)
qed

lemma cache_GetLink_miss:
  assumes "c_local c = Some l" and "cold now l key"
  shows "\<exists>l'. fst (cache_GetLink rng now key fetch link c) = fst (fetch (c_user c))
         \<and> c_user (snd (cache_GetLink rng now key fetch link c)) =
             count_fetch (target (c_opt c)) (fst (fetch (c_user c))) (snd (fetch (c_user c)))
         \<and> c_opt (snd (cache_GetLink rng now key fetch link c)) = c_opt c
         \<and> c_local (snd (cache_GetLink rng now key fetch link c)) = Some l'
         \<and> (c_link c = None \<longrightarrow> c_link (snd (cache_GetLink rng now key fetch link c)) = None)
         \<and> (snd (fst (fetch (c_user c))) = None \<and> 1 \<le> shard_size (lru_shard l key) \<longrightarrow>
              cached l' key =
                Some (key, \<lparr>item_err = None, item_value = fst (fst (fetch (c_user c)))\<rparr>,
                      now + shard_ttl (lru_shard l key)))
         \<and> (snd (fst (fetch (c_user c))) \<noteq> None \<and> is_expiration (lru_shard l key) \<longrightarrow>
              cached l' key = None)"
proof -
  let ?cb = "Some (cache_onEvict rng)"
  let ?f = "link_fetch key fetch link"
  from lru_Get_miss [OF assms(2), of ?cb "cache_target c" ?f c]
  obtain l' ev ev' where g: "lru_Get ?cb (cache_target c) now key ?f (l, c) =
             (fst (fetch_at ?cb ?f ev c), l',
              run_evict ?cb ev'
                (count_fetch (cache_target c) (fst (fetch_at ?cb ?f ev c)) (snd (fetch_at ?cb ?f ev c))))"
    and ok: "snd (fst (fetch_at ?cb ?f ev c)) = None \<and> 1 \<le> shard_size (lru_shard l key) \<longrightarrow>
              cached l' key =
                Some (key, \<lparr>item_err = None, item_value = fst (fst (fetch_at ?cb ?f ev c))\<rparr>,
                      now + shard_ttl (lru_shard l key))"
    and err: "snd (fst (fetch_at ?cb ?f ev c)) \<noteq> None \<and> is_expiration (lru_shard l key) \<longrightarrow>
              cached l' key = None"
    by blast
  let ?c0 = "run_evict ?cb ev c"
  have r: "fst (fetch_at ?cb ?f ev c) = fst (fetch (c_user c))"
    by (simp add: fetch_at_def link_fetch_facts run_evict_fields del: run_evict.simps)
  have u: "c_user (snd (fetch_at ?cb ?f ev c)) = snd (fetch (c_user c))"
    by (simp add: fetch_at_def link_fetch_facts run_evict_fields del: run_evict.simps)
  have o: "c_opt (snd (fetch_at ?cb ?f ev c)) = c_opt c"
    by (simp add: fetch_at_def link_fetch_facts run_evict_fields del: run_evict.simps)
  have lk: "c_link c = None \<Longrightarrow> c_link (snd (fetch_at ?cb ?f ev c)) = None"
    by (simp add: fetch_at_def link_fetch_facts run_evict_no_link del: run_evict.simps)
  let ?w = "on_user (count_fetch (target (c_opt c)) (fst (fetch (c_user c)))) (snd (fetch_at ?cb ?f ev c))"
  have res: "cache_GetLink rng now key fetch link c =
      (fst (fetch (c_user c)), (run_evict ?cb ev' ?w)\<lparr>c_local := Some l'\<rparr>)"
    unfolding cache_GetLink_def assms(1) option.case g r count_fetch_cache_target
    by (simp del: run_evict.simps)
  have lk': "c_link c = None \<Longrightarrow> c_link (run_evict ?cb ev' ?w) = None"
  proof -
    assume "c_link c = None"
    then have "c_link ?w = None"
      by (simp add: on_user_fields lk)
    then show ?thesis
      by (simp add: run_evict_no_link del: run_evict.simps)
  qed
  show ?thesis
    unfolding res
    using ok err lk'
    by (intro exI [of _ l'])
       (simp add: r run_evict_fields on_user_fields u o del: run_evict.simps)
qed
subsection \<open>What every step of \<open>Get\<close> preserves\<close>

lemma shard_Get_preserves:
  assumes cbP: "\<And>ev w. P w \<Longrightarrow> P (run_evict cb ev w)"
    and fP: "\<And>w r w'. P w \<Longrightarrow> fetch w = (r, w') \<Longrightarrow> P w'"
    and tP: "\<And>w. P w \<Longrightarrow> P (IncrGetHit tg w)" "\<And>w. P w \<Longrightarrow> P (IncrGetSuccess tg w)"
      "\<And>w. P w \<Longrightarrow> P (IncrGetFailed tg w)"
    and w: "P w"
  shows "P (snd (snd (shard_Get cb tg now key fetch (s, w))))"
proof (cases s)
  case (ExpirationShard x)
  obtain o1 c1 ev1 where g: "core_Get now key (xl_core x) = (o1, c1, ev1)"
    by (cases "core_Get now key (xl_core x)")
  have w1: "P (run_evict cb ev1 w)"
    using w by (rule cbP)
  show ?thesis
  proof (cases o1)
    case (Some v)
    then show ?thesis
      using w1 by (simp add: ExpirationShard ExpirationLRU_Get_def g tP del: run_evict.simps)
  next
    case None
    obtain c2 ev2 where a: "core_Add now key \<lparr>item_err = None, item_value = xl_zero x\<rparr> c1 = (c2, ev2)"
      by (cases "core_Add now key \<lparr>item_err = None, item_value = xl_zero x\<rparr> c1")
    obtain val err w3 where f: "fetch (run_evict cb ev2 (run_evict cb ev1 w)) = ((val, err), w3)"
      by (cases "fetch (run_evict cb ev2 (run_evict cb ev1 w))") auto
    have w3: "P w3"
      using cbP [OF w1, of ev2] f by (rule fP)
    obtain ok c4 ev4 where rm: "core_Remove key
        (c2\<lparr>core_items := store_item key \<lparr>item_err = err, item_value = val\<rparr> (core_items c2)\<rparr>)
          = (ok, c4, ev4)"
      by (cases "core_Remove key
        (c2\<lparr>core_items := store_item key \<lparr>item_err = err, item_value = val\<rparr> (core_items c2)\<rparr>)")
    show ?thesis
      using w3
      by (simp add: ExpirationShard ExpirationLRU_Get_def g None a f rm Let_def tP cbP
          del: run_evict.simps)
  qed
next
  case (LazyShard x)
  have miss: "P (snd (snd (LazyLRU_miss cb tg now key fetch (x0, w))))" for x0
  proof -
    obtain es ev where pe: "push_entry (lz_size x0)
        (key, \<lparr>item_err = None, item_value = lz_zero x0\<rparr>, now + lz_successTTL x0) (lz_items x0) = (es, ev)"
      by (cases "push_entry (lz_size x0)
        (key, \<lparr>item_err = None, item_value = lz_zero x0\<rparr>, now + lz_successTTL x0) (lz_items x0)")
    obtain val err w2 where f: "fetch (run_evict cb ev w) = ((val, err), w2)"
      by (cases "fetch (run_evict cb ev w)") auto
    have "P w2"
      using cbP [OF w, of ev] f by (rule fP)
    then show ?thesis
      by (simp add: LazyLRU_miss_def pe f Let_def tP del: run_evict.simps)
  qed
  show ?thesis
    using w miss
    by (simp add: LazyShard LazyLRU_Get_def tP split_beta split: option.splits)
qed

lemma lru_Get_preserves:
  assumes "\<And>ev w. P w \<Longrightarrow> P (run_evict cb ev w)"
    and "\<And>w r w'. P w \<Longrightarrow> fetch w = (r, w') \<Longrightarrow> P w'"
    and "\<And>w. P w \<Longrightarrow> P (IncrGetHit tg w)" "\<And>w. P w \<Longrightarrow> P (IncrGetSuccess tg w)"
      "\<And>w. P w \<Longrightarrow> P (IncrGetFailed tg w)"
    and "P w"
  shows "P (snd (snd (lru_Get cb tg now key fetch (l, w))))"
proof -
  have "P (snd (snd (shard_Get cb tg now key fetch (lru_shard l key, w))))"
    by (rule shard_Get_preserves [where P = P and cb = cb and fetch = fetch and tg = tg])
       (fact assms)+
  then show ?thesis
    by (simp add: lru_Get_def split_beta)
qed

lemma cache_GetLink_links_off:
  assumes "c_link c = None"
  shows "c_link (snd (cache_GetLink rng now key fetch link c)) = None"
proof (cases "c_local c")
  case None
  with assms show ?thesis
    by (simp add: cache_GetLink_def split: prod.splits)
next
  case (Some l)
  let ?P = "\<lambda>w :: ('a, 'b) cache. c_link w = None"
  have "?P (snd (snd (lru_Get (Some (cache_onEvict rng)) (cache_target c) now key
                (link_fetch key fetch link) (l, c))))"
  proof (rule lru_Get_preserves [where P = ?P])
    show "\<And>ev w. c_link w = None \<Longrightarrow> c_link (run_evict (Some (cache_onEvict rng)) ev w) = None"
      by (simp add: run_evict_no_link del: run_evict.simps)
    show "\<And>w r w'. c_link w = None \<Longrightarrow> link_fetch key fetch link w = (r, w') \<Longrightarrow> c_link w' = None"
      using link_fetch_facts(4) by (metis snd_conv)
  qed (simp_all add: cache_target_def on_user_fields assms)
  then show ?thesis
    by (simp add: cache_GetLink_def Some split_beta)
qed
subsection \<open>The contents decide what \<open>del\<close> does to the contents\<close>

lemma contents_eq: "contents c = contents c' \<longleftrightarrow> c_local c = c_local c' \<and> c_link c = c_link c'"
  by (simp add: contents_def)

lemma del_links_snd_cong:
  "c_link c = c_link c' \<Longrightarrow> snd (del_links rng deleted cur c) = snd (del_links rng deleted cur c')"
  by (simp add: del_links_def split: option.splits prod.splits)

lemma step_contents_cong:
  assumes "contents c = contents c'"
  shows "contents (local_Del rng cur (fst (del_links rng deleted cur c)))
       = contents (local_Del rng cur (fst (del_links rng deleted cur c')))"
  using assms by (simp add: contents_eq step_local step_link)

lemma cache_del_loop_contents_cong:
  "contents c = contents c' \<Longrightarrow>
   contents (cache_del_loop rng deleted toDelete c) = contents (cache_del_loop rng deleted toDelete c')"
proof (induction rng deleted toDelete c arbitrary: c' rule: cache_del_loop.induct)
  case (1 rng deleted toDelete c)
  show ?case
  proof (cases toDelete)
    case Nil
    with "1.prems" show ?thesis by (simp add: cache_del_loop_Nil)
  next
    case (Cons cur rest)
    show ?thesis
    proof (cases "cur |\<in>| deleted")
      case True
      from "1.IH"(1) [OF Cons True "1.prems"] True show ?thesis
        by (simp add: Cons cache_del_loop_skip)
    next
      case False
      let ?d = "finsert cur deleted"
      have p: "snd (del_links rng ?d cur c) = snd (del_links rng ?d cur c')"
        using "1.prems" by (intro del_links_snd_cong) (simp add: contents_eq)
      from "1.IH"(2) [OF Cons False prod.collapse step_contents_cong [OF "1.prems"]]
      show ?thesis
        by (simp add: Cons cache_del_loop_step [OF False] p)
    qed
  qed
qed

lemma cache_del_contents_cong:
  assumes "contents c = contents c'"
  shows "contents (cache_del rng keys c) = contents (cache_del rng keys c')"
proof (cases "c_local c")
  case None
  with assms show ?thesis
    by (simp add: cache_del_def contents_eq)
next
  case (Some l)
  with assms obtain l' where "c_local c' = Some l'"
    by (metis contents_eq)
  with Some cache_del_loop_contents_cong [OF assms] show ?thesis
    by (simp add: cache_del_def)
qed

lemma cache_Del_contents: "contents (cache_Del rng keys c) = contents (cache_del rng keys c)"
  unfolding cache_Del_def by (rule cache_del_contents_cong) (simp add: contents_def)

lemma settled_cong: "contents c = contents c' \<Longrightarrow> settled k c = settled k c'"
  by (simp add: contents_eq settled_def absent_link_def cache_cached_def)

subsection \<open>One key through \<open>del\<close>\<close>

lemma cache_del_reachable:
  assumes "c_local c = Some l"
    and "k = a \<or> (case c_link c of None \<Rightarrow> False | Some lk \<Rightarrow> k \<in> reachable lk a)"
  shows "settled k (cache_del rng [a] c)"
proof -
  let ?d = "{|a|}"
  let ?p = "snd (del_links rng ?d a c)"
  let ?c2 = "local_Del rng a (fst (del_links rng ?d a c))"
  have eq: "cache_del rng [a] c = cache_del_loop rng ?d ?p ?c2"
    using assms(1) by (simp add: cache_del_def cache_del_loop_step)
  have inv: "\<forall>k. k |\<in>| ?d \<longrightarrow> settled k ?c2"
    by (simp add: step_settled)
  have "k |\<in>| ?d \<or> k \<in> set ?p"
    using assms(2) by (auto simp: del_links_snd split: option.splits)
  with cache_del_loop_settled [OF inv, where rng = rng and toDelete = ?p] show ?thesis
    unfolding eq by blast
qed

lemma cache_del_local: "c_local (cache_del rng keys c) = None \<longleftrightarrow> c_local c = None"
  by (simp add: cache_del_def cache_del_loop_local)

lemma cache_del_settled_again:
  assumes "settled a c"
  shows "contents (cache_del rng [a] c) = contents c"
proof (cases "c_local c")
  case None
  then show ?thesis by (simp add: cache_del_def)
next
  case (Some l)
  have ab: "absent_link a c" and un: "cached l a = None"
    using assms Some by (simp_all add: settled_def cache_cached_def)
  have dl: "del_links rng {|a|} a c = (c, [])"
  proof (cases "c_link c")
    case None
    then show ?thesis by (simp add: del_links_def)
  next
    case (Some lk)
    with ab have "slot_Del rng a lk = ({|a|}, lk)"
      by (simp add: absent_link_def slot_Del_absent)
    moreover have "c\<lparr>c_link := Some lk\<rparr> = c"
      using Some by simp
    ultimately show ?thesis
      by (simp add: del_links_def Some range_over_single)
  qed
  have "cache_del rng [a] c = local_Del rng a c"
    using Some by (simp add: cache_del_def cache_del_loop_step dl cache_del_loop_Nil)
  then show ?thesis
    using local_Del_absent(1) [OF ab, of rng] un
    by (simp add: contents_eq local_Del_local Some lru_drop_absent)
qed

lemma cache_del_duplicate: "cache_del rng [a, a] c = cache_del rng [a] c"
  by (simp add: cache_del_def cache_del_loop_step cache_del_loop_skip)

lemma cache_del_links_off:
  assumes "c_link c = None"
  shows "c_link (cache_del rng [a] c) = None"
    and "cache_cached (cache_del rng [a] c) k = (if k = a then None else cache_cached c k)"
proof -
  show "c_link (cache_del rng [a] c) = None"
    using assms by (simp add: cache_del_def cache_del_loop_links_off)
  have dl: "del_links rng {|a|} a c = (c, [])"
    using assms by (simp add: del_links_def)
  show "cache_cached (cache_del rng [a] c) k = (if k = a then None else cache_cached c k)"
  proof (cases "c_local c")
    case None
    then show ?thesis by (simp add: cache_del_def cache_cached_def)
  next
    case (Some l)
    then have "cache_del rng [a] c = local_Del rng a c"
      by (simp add: cache_del_def cache_del_loop_step dl cache_del_loop_Nil)
    then show ?thesis
      by (simp add: cache_cached_def local_Del_local Some cached_lru_drop)
  qed
qed

lemma cache_cached_user: "cache_cached (c\<lparr>c_user := u\<rparr>) k = cache_cached c k"
  by (simp add: cache_cached_def)

subsection \<open>Links that make a chain\<close>

lemma slot_Link_adj_mono: "x |\<in>| adj lk k \<Longrightarrow> x |\<in>| adj (slot_Link key link lk) k"
  by (auto simp: slot_Link_adj)

lemma slot_Link_adj_new: "x \<in> set link \<Longrightarrow> x |\<in>| adj (slot_Link key link lk) key"
  by (simp add: slot_Link_adj fset_of_list.rep_eq)

lemma reachable_step: "x \<in> reachable lk k \<Longrightarrow> y |\<in>| adj lk x \<Longrightarrow> y \<in> reachable lk k"
  by (rule reachable_closed)

lemma chain_reachable:
  "a \<in> reachable (chain_links a b c d lk) a"
  "b \<in> reachable (chain_links a b c d lk) a"
  "c \<in> reachable (chain_links a b c d lk) a"
  "d \<in> reachable (chain_links a b c d lk) a"
proof -
  let ?lk3 = "chain_links a b c d lk"
  have ab: "b |\<in>| adj ?lk3 a"
    unfolding chain_links_def
    by (rule slot_Link_adj_mono, rule slot_Link_adj_mono, simp add: slot_Link_adj_new)
  have bc: "c |\<in>| adj ?lk3 b"
    unfolding chain_links_def
    by (rule slot_Link_adj_mono, simp add: slot_Link_adj_new)
  have cd: "d |\<in>| adj ?lk3 c"
    unfolding chain_links_def by (simp add: slot_Link_adj_new)
  show a: "a \<in> reachable ?lk3 a" by (rule reachable_self)
  from a ab show b: "b \<in> reachable ?lk3 a" by (rule reachable_step)
  from b bc show c: "c \<in> reachable ?lk3 a" by (rule reachable_step)
  from c cd show "d \<in> reachable ?lk3 a" by (rule reachable_step)
qed

section \<open>The drain of the pending deletions\<close>


















section \<open>Claims about the linkage graph\<close>

text \<open>
  C2, as the code has it. \<open>Del\<close> walks the graph: it returns \<open>k\<close> together with every
  key reachable from \<open>k\<close> along adjacency entries, it removes the adjacency entry of each
  returned key from that key's shard, and it leaves every other entry, and the shard count,
  as they were.
\<close>

theorem linkage_delete_cascades:
  "fset (fst (slot_Del rng k x)) = reachable x k
       \<and> slot_n (snd (slot_Del rng k x)) = slot_n x
       \<and> stored (snd (slot_Del rng k x)) i a =
           (if a \<in> reachable x k \<and> i = slot_index x a then None else stored x i a)"
proof -
  obtain D x' where r: "delKey rng k x = (D, x')"
    by (cases "delKey rng k x")
  note s = delKey_spec [OF r]
  show ?thesis
    using s(1) s(2) by (simp add: slot_Del_def r s(3))
qed

theorem linkage_delete_cascades_witness:
  "fset (fst (slot_Del range_sorted ''key1'' graph_key1_link1)) = reachable graph_key1_link1 ''key1''
   \<and> slot_n (snd (slot_Del range_sorted ''key1'' graph_key1_link1)) = slot_n graph_key1_link1
   \<and> stored (snd (slot_Del range_sorted ''key1'' graph_key1_link1))
        (slot_index graph_key1_link1 ''link1'') ''link1'' =
           (if ''link1'' \<in> reachable graph_key1_link1 ''key1''
               \<and> slot_index graph_key1_link1 ''link1'' = slot_index graph_key1_link1 ''link1''
            then None
            else stored graph_key1_link1 (slot_index graph_key1_link1 ''link1'') ''link1'')"
  using linkage_delete_cascades [of range_sorted "''key1''" graph_key1_link1
      "slot_index graph_key1_link1 ''link1''" "''link1''"]
  by blast

text \<open>
  C2, as the claim states it, fails on the graph of \<open>TestLink_BidirectionalLink\<close>: the
  neighbours of \<open>key1\<close> are \<open>{link1}\<close>, but \<open>Del key1\<close> returns \<open>{key1, link1}\<close>, and the
  adjacency entry of \<open>link1\<close> is gone afterwards.
\<close>

theorem linkage_delete_direct_neighbours_counterexample:
  "adj graph_key1_link1 ''key1'' = {|''link1''|}
   \<and> fst (slot_Del range_sorted ''key1'' graph_key1_link1) = {|''key1'', ''link1''|}
   \<and> fst (slot_Del range_sorted ''key1'' graph_key1_link1) \<noteq> adj graph_key1_link1 ''key1''
   \<and> adj graph_key1_link1 ''link1'' = {|''key1''|}
   \<and> adj (snd (slot_Del range_sorted ''key1'' graph_key1_link1)) ''link1'' = {||}"
  by (auto simp: graph_key1_link1_def link_eval)

text \<open>
  C6, as the code has it. Deleting a key that has no adjacency entry is benign: \<open>Del\<close>
  returns the set holding just that key, and the graph is unchanged.
\<close>

theorem linkage_delete_absent_key:
  assumes "stored x (slot_index x k) k = None"
  shows "slot_Del rng k x = ({|k|}, x)"
proof -
  have "shard_del k x = (None, x)"
    using assms by (simp add: shard_del_def linkKey_del_def stored_def)
  then have "delKey_loop rng {||} [k] x = delKey_loop rng {|k|} [] x"
    by (subst delKey_loop.simps) simp
  also have "\<dots> = ({|k|}, x)"
    by (subst delKey_loop.simps) simp
  finally show ?thesis
    by (simp add: slot_Del_def delKey_def)
qed

theorem linkage_delete_absent_key_witness:
  "stored graph10 (slot_index graph10 ''non_existent_key'') ''non_existent_key'' = None
   \<and> slot_Del range_sorted ''non_existent_key'' graph10 = ({|''non_existent_key''|}, graph10)"
proof -
  have h: "stored graph10 (slot_index graph10 ''non_existent_key'') ''non_existent_key'' = None"
    by (simp add: stored_def graph10_def newLinkKey_def)
  show ?thesis
    using h linkage_delete_absent_key [OF h, of range_sorted] by simp
qed

text \<open>
  C6, as the claim states it, fails on \<open>TestLink_DeleteNonExistent\<close>: on the empty graph of
  \<open>New(10)\<close>, \<open>Del\<close> of a key that was never linked returns a set with one member, not the
  empty set.
\<close>

theorem linkage_delete_absent_not_empty_counterexample:
  "link_New 10 = Inr graph10
   \<and> fst (slot_Del range_sorted ''non_existent_key'' graph10) = {|''non_existent_key''|}
   \<and> fst (slot_Del range_sorted ''non_existent_key'' graph10) \<noteq> {||}"
  by (simp add: link_New_10 slot_Del_absent stored_def graph10_def newLinkKey_def)

text \<open>
  C7. Starting from the graph that \<open>New\<close> returns, after every finite sequence of \<open>Link\<close>
  and \<open>Del\<close> operations the adjacency is symmetric: \<open>b\<close> is in \<open>adj a\<close> if and only if
  \<open>a\<close> is in \<open>adj b\<close>.
\<close>

theorem linkage_symmetry_invariant:
  assumes "link_New cnt = Inr x0"
  shows "symmetric (fold (apply_link_op rng) ops x0)"
proof -
  have "symmetric x0"
    using assms by (rule link_New_symmetric)
  then show ?thesis
  proof (induction ops arbitrary: x0)
    case Nil
    then show ?case by simp
  next
    case (Cons op ops)
    from Cons.prems have "symmetric (apply_link_op rng op x0)"
      by (rule apply_link_op_symmetric)
    then show ?case
      by (simp add: Cons.IH)
  qed
qed

theorem linkage_symmetry_invariant_witness:
  "link_New 10 = Inr graph10
   \<and> symmetric (fold (apply_link_op range_sorted)
        [OpLink ''key1'' [''link1'', ''link2''], OpLink ''key2'' [''link2'', ''link3''],
         OpDel ''key1''] graph10)"
  using linkage_symmetry_invariant [OF link_New_10] link_New_10
  by blast
section \<open>Claims about the cache\<close>

lemma test_cache_local:
  "c_local (test_cache False links) = Some test_lazy"
  "c_local (test_cache True links) = Some test_active"
  by (simp_all add: test_cache_def cache_New_def test_option_def createSimpleLRU_def
      test_lazy_def test_active_def)

lemma test_cache_link:
  "c_link (test_cache active 0) = None"
  "c_link (test_cache active 10) = Some graph10"
  by (simp_all add: test_cache_def cache_New_def test_option_def link_New_10)

lemmas active_eval = cache_Get_def cache_GetLink_def lru_Get_def
  ExpirationLRU_Get_def core_Get_def core_Add_def core_Remove_def push_entry_def
  find_entry_def drop_key_def store_item_def test_cache_def cache_New_def test_option_def
  createSimpleLRU_def NewExpirationLRU_def link_fetch_def fetch_value_def cache_target_def
  on_user_def testTarget_def stats0_def Let_def expired_def

lemma test_cache_user: "c_user (test_cache active links) = stats0"
  by (simp add: test_cache_def cache_New_def)




text \<open>
  C4. In active-expiry mode (the shard of the key is an \<open>ExpirationLRU\<close>), when the shard
  holds no unexpired entry for the key and the fetcher fails, \<open>Get\<close> returns what the
  fetcher returned, error included, and no entry for the key is left. A \<open>Get\<close> that follows
  runs its own fetcher and returns what that fetcher returns.
\<close>

theorem active_failure_not_retained:
  assumes "c_local s = Some l"
    and "is_expiration (lru_shard l key)"
    and "cold now l key"
    and "fst (fetch_err (c_user s)) = (v0, Some ERR)"
  shows "(let s1 = snd (cache_Get rng now key fetch_err s) in
          fst (cache_Get rng now key fetch_err s) = (v0, Some ERR)
        \<and> cache_cached s1 key = None
        \<and> fst (cache_Get rng now' key fetch_ok s1) = fst (fetch_ok (c_user s1))
        \<and> c_user (snd (cache_Get rng now' key fetch_ok s1)) =
            count_fetch (target (c_opt s)) (fst (fetch_ok (c_user s1))) (snd (fetch_ok (c_user s1))))"
proof -
  define s1 where "s1 = snd (cache_Get rng now key fetch_err s)"
  from cache_GetLink_miss [OF assms(1,3), of rng fetch_err "[]"] assms(2,4)
  obtain l' where r: "fst (cache_Get rng now key fetch_err s) = (v0, Some ERR)"
    and o: "c_opt s1 = c_opt s"
    and l': "c_local s1 = Some l'"
    and e: "cached l' key = None"
    by (auto simp: cache_Get_def s1_def)
  have c: "cold now' l' key"
    using e by (rule cached_None_cold)
  from cache_GetLink_miss [OF l' c, of rng fetch_ok "[]"]
  have "fst (cache_Get rng now' key fetch_ok s1) = fst (fetch_ok (c_user s1))"
    and "c_user (snd (cache_Get rng now' key fetch_ok s1)) =
            count_fetch (target (c_opt s)) (fst (fetch_ok (c_user s1))) (snd (fetch_ok (c_user s1)))"
    by (auto simp: cache_Get_def o)
  with r e l' show ?thesis
    by (simp add: s1_def [symmetric] Let_def cache_cached_def)
qed

theorem active_failure_not_retained_witness:
  "c_local (test_cache True 10) = Some test_active
   \<and> is_expiration (lru_shard test_active ''k'')
   \<and> cold 0 test_active ''k''
   \<and> fst (fetch_error ''ERR'' (c_user (test_cache True 10))) = ([], Some ''ERR'')
   \<and> (let s1 = snd (cache_Get range_sorted 0 ''k'' (fetch_error ''ERR'') (test_cache True 10)) in
          fst (cache_Get range_sorted 0 ''k'' (fetch_error ''ERR'') (test_cache True 10))
            = ([], Some ''ERR'')
        \<and> cache_cached s1 ''k'' = None
        \<and> fst (cache_Get range_sorted 0 ''k'' (fetch_value ''v'') s1)
            = fst (fetch_value ''v'' (c_user s1))
        \<and> c_user (snd (cache_Get range_sorted 0 ''k'' (fetch_value ''v'') s1)) =
            count_fetch (target (c_opt (test_cache True 10)))
              (fst (fetch_value ''v'' (c_user s1))) (snd (fetch_value ''v'' (c_user s1))))"
proof -
  have h1: "c_local (test_cache True 10) = Some test_active"
    by (simp add: test_cache_local)
  have h2: "is_expiration (lru_shard test_active ''k'')"
    by (simp add: test_active_def)
  have h3: "cold 0 test_active ''k''"
    by (simp add: cold_def test_active_def NewExpirationLRU_def)
  have h4: "fst (fetch_error ''ERR'' (c_user (test_cache True 10))) = ([], Some ''ERR'')"
    by (simp add: fetch_error_def)
  show ?thesis
    using h1 h2 h3 h4
      active_failure_not_retained [where s = "test_cache True 10" and l = test_active
        and key = "''k''" and now = 0 and now' = 0 and fetch_err = "fetch_error ''ERR''"
        and ERR = "''ERR''" and ?v0.0 = "[]" and rng = range_sorted and fetch_ok = "fetch_value ''v''",
        OF h1 h2 h3 h4]
    by - (intro conjI; assumption)
qed

text \<open>
  C3. With local caching and linkage enabled, after \<open>link(a, b)\<close>, \<open>link(b, c)\<close> and
  \<open>link(c, d)\<close>, one \<open>Del(a)\<close> leaves no entry in the LRU for any of \<open>a\<close>, \<open>b\<close>, \<open>c\<close>,
  \<open>d\<close>: a \<open>Get\<close> of any of them afterwards runs its fetcher and returns what it returns.
\<close>

theorem transitive_cascade_delete:
  assumes "c_local s = Some l" and "c_link s = Some lk" and "k \<in> {a, b, c, d}"
  shows "(let s2 = cache_Del rng [a] (s\<lparr>c_link := Some (chain_links a b c d lk)\<rparr>) in
          cache_cached s2 k = None
        \<and> fst (cache_Get rng now k fetch s2) = fst (fetch (c_user s2))
        \<and> c_user (snd (cache_Get rng now k fetch s2)) =
            count_fetch (target (c_opt s2)) (fst (fetch (c_user s2))) (snd (fetch (c_user s2))))"
proof -
  define s1 where "s1 = s\<lparr>c_link := Some (chain_links a b c d lk)\<rparr>"
  define sh where "sh = s1\<lparr>c_user := fold (\<lambda>fn u. fn u [a]) (delFn (c_opt s1)) (c_user s1)\<rparr>"
  define s2 where "s2 = cache_Del rng [a] s1"
  have s2: "s2 = cache_del rng [a] sh"
    by (simp add: s2_def cache_Del_def sh_def)
  have loc: "c_local sh = Some l"
    by (simp add: sh_def s1_def assms(1))
  have lnk: "c_link sh = Some (chain_links a b c d lk)"
    by (simp add: sh_def s1_def)
  have "k \<in> reachable (chain_links a b c d lk) a"
    using assms(3) chain_reachable [where a = a and b = b and c = c and d = d and lk = lk] by auto
  then have "settled k s2"
    unfolding s2 by (intro cache_del_reachable [OF loc]) (simp add: lnk)
  then have un: "cache_cached s2 k = None"
    by (simp add: settled_def)
  have "c_local s2 \<noteq> None"
    unfolding s2 by (simp add: cache_del_local loc)
  then obtain l2 where l2: "c_local s2 = Some l2"
    by auto
  with un have "cold now l2 k"
    by (intro cached_None_cold) (simp add: cache_cached_def)
  from cache_GetLink_miss [OF l2 this, of rng fetch "[]"] un
  show ?thesis
    by (auto simp: cache_Get_def s2_def [symmetric] s1_def [symmetric] Let_def)
qed

text \<open>
  An instance on a cache in active mode that holds \<open>a\<close>, \<open>b\<close>, \<open>c\<close>, \<open>d\<close> and \<open>e\<close>: before the
  delete \<open>d\<close> is cached; after \<open>Del(a)\<close> it is gone, four delete hits were counted, and \<open>e\<close>,
  which no link reaches, is still cached.
\<close>

theorem transitive_cascade_delete_witness:
  "c_local populated_cache = Some populated_lru
   \<and> c_link populated_cache = Some graph10
   \<and> ''d'' \<in> {''a'', ''b'', ''c'', ''d''}
   \<and> cache_cached populated_cache ''d''
       = Some (''d'', \<lparr>item_err = None, item_value = ''vd''\<rparr>, 60)
   \<and> cache_cached (cache_Del range_sorted [''a'']
         (populated_cache\<lparr>c_link := Some (chain_links ''a'' ''b'' ''c'' ''d'' graph10)\<rparr>)) ''e''
       = Some (''e'', \<lparr>item_err = None, item_value = ''ve''\<rparr>, 60)
   \<and> delHits (c_user (cache_Del range_sorted [''a'']
         (populated_cache\<lparr>c_link := Some (chain_links ''a'' ''b'' ''c'' ''d'' graph10)\<rparr>))) = 4
   \<and> (let s2 = cache_Del range_sorted [''a'']
                 (populated_cache\<lparr>c_link := Some (chain_links ''a'' ''b'' ''c'' ''d'' graph10)\<rparr>) in
          cache_cached s2 ''d'' = None
        \<and> fst (cache_Get range_sorted 0 ''d'' (fetch_value ''v'') s2) = fst (fetch_value ''v'' (c_user s2))
        \<and> c_user (snd (cache_Get range_sorted 0 ''d'' (fetch_value ''v'') s2)) =
            count_fetch (target (c_opt s2)) (fst (fetch_value ''v'' (c_user s2)))
              (snd (fetch_value ''v'' (c_user s2))))"
proof -
  have h1: "c_local populated_cache = Some populated_lru"
    by code_simp
  have h2: "c_link populated_cache = Some graph10"
    by (simp add: populated_cache_def active_eval link_New_10)
  have h3: "''d'' \<in> {''a'', ''b'', ''c'', ''d''}"
    by simp
  have h4: "cache_cached populated_cache ''d''
       = Some (''d'', \<lparr>item_err = None, item_value = ''vd''\<rparr>, 60)"
    by code_simp
  have h5: "cache_cached (cache_Del range_sorted [''a'']
         (populated_cache\<lparr>c_link := Some (chain_links ''a'' ''b'' ''c'' ''d'' graph10)\<rparr>)) ''e''
       = Some (''e'', \<lparr>item_err = None, item_value = ''ve''\<rparr>, 60)"
    by code_simp
  have h6: "delHits (c_user (cache_Del range_sorted [''a'']
         (populated_cache\<lparr>c_link := Some (chain_links ''a'' ''b'' ''c'' ''d'' graph10)\<rparr>))) = 4"
    by code_simp
  show ?thesis
    using h1 h2 h3 h4 h5 h6
      transitive_cascade_delete [where s = populated_cache and l = populated_lru
        and lk = graph10 and k = "''d''" and a = "''a''" and b = "''b''" and c = "''c''"
        and d = "''d''" and rng = range_sorted and now = 0 and fetch = "fetch_value ''v''",
        OF h1 h2 h3]
    by - (intro conjI; assumption)
qed

lemmas cache_eval = cache_Get_def cache_GetLink_def lru_Get_def LazyLRU_Get_def LazyLRU_miss_def
  push_entry_def find_entry_def drop_key_def test_cache_def cache_New_def test_option_def
  createSimpleLRU_def NewLazyLRU_def link_fetch_def fetch_value_def cache_target_def
  on_user_def testTarget_def stats0_def Let_def cache_cached_def cached_def expired_def

text \<open>
  C8. For every key and every state of the cache, \<open>Del(a)\<close> run twice, and \<open>Del(a, a)\<close>, leave
  the contents of the cache (the LRU and the linkage graph) as one \<open>Del(a)\<close> leaves them.
\<close>

theorem cascade_delete_idempotent:
  "contents (cache_Del rng [a] (cache_Del rng [a] s)) = contents (cache_Del rng [a] s)
   \<and> contents (cache_Del rng [a, a] s) = contents (cache_Del rng [a] s)"
proof
  define sh where "sh = s\<lparr>c_user := fold (\<lambda>fn u. fn u [a]) (delFn (c_opt s)) (c_user s)\<rparr>"
  define s1 where "s1 = cache_Del rng [a] s"
  have s1: "s1 = cache_del rng [a] sh"
    by (simp add: s1_def cache_Del_def sh_def)
  have "contents (cache_del rng [a] s1) = contents s1"
  proof (cases "c_local sh")
    case None
    then have "c_local s1 = None"
      by (simp add: s1 cache_del_def)
    then show ?thesis
      by (simp add: cache_del_def)
  next
    case (Some l)
    have "settled a s1"
      unfolding s1 by (rule cache_del_reachable [OF Some]) simp
    then show ?thesis
      by (rule cache_del_settled_again)
  qed
  then show "contents (cache_Del rng [a] (cache_Del rng [a] s)) = contents (cache_Del rng [a] s)"
    by (simp add: cache_Del_contents s1_def)
next
  show "contents (cache_Del rng [a, a] s) = contents (cache_Del rng [a] s)"
    by (simp add: cache_Del_contents cache_del_duplicate)
qed

text \<open>
  An instance on the cache that holds \<open>a\<close>, \<open>b\<close>, \<open>c\<close>, \<open>d\<close> and \<open>e\<close>, with the links
  \<open>link(a, b)\<close>, \<open>link(b, c)\<close>, \<open>link(c, d)\<close>: the first \<open>Del(a)\<close> removes the entry of \<open>a\<close>.
\<close>

theorem cascade_delete_idempotent_witness:
  "cache_cached (populated_cache\<lparr>c_link := Some (chain_links ''a'' ''b'' ''c'' ''d'' graph10)\<rparr>) ''a''
     = Some (''a'', \<lparr>item_err = None, item_value = ''va''\<rparr>, 60)
   \<and> cache_cached (cache_Del range_sorted [''a'']
        (populated_cache\<lparr>c_link := Some (chain_links ''a'' ''b'' ''c'' ''d'' graph10)\<rparr>)) ''a'' = None
   \<and> contents (cache_Del range_sorted [''a''] (cache_Del range_sorted [''a'']
        (populated_cache\<lparr>c_link := Some (chain_links ''a'' ''b'' ''c'' ''d'' graph10)\<rparr>)))
     = contents (cache_Del range_sorted [''a'']
        (populated_cache\<lparr>c_link := Some (chain_links ''a'' ''b'' ''c'' ''d'' graph10)\<rparr>))
   \<and> contents (cache_Del range_sorted [''a'', ''a'']
        (populated_cache\<lparr>c_link := Some (chain_links ''a'' ''b'' ''c'' ''d'' graph10)\<rparr>))
     = contents (cache_Del range_sorted [''a'']
        (populated_cache\<lparr>c_link := Some (chain_links ''a'' ''b'' ''c'' ''d'' graph10)\<rparr>))"
proof -
  have h1: "cache_cached (populated_cache\<lparr>c_link := Some (chain_links ''a'' ''b'' ''c'' ''d'' graph10)\<rparr>) ''a''
     = Some (''a'', \<lparr>item_err = None, item_value = ''va''\<rparr>, 60)"
    by code_simp
  have h2: "cache_cached (cache_Del range_sorted [''a'']
        (populated_cache\<lparr>c_link := Some (chain_links ''a'' ''b'' ''c'' ''d'' graph10)\<rparr>)) ''a'' = None"
    by code_simp
  show ?thesis
    using h1 h2
      cascade_delete_idempotent [of range_sorted "''a''"
        "populated_cache\<lparr>c_link := Some (chain_links ''a'' ''b'' ''c'' ''d'' graph10)\<rparr>"]
    by - (intro conjI; (assumption | (elim conjE, assumption)))
qed

text \<open>
  C9. With linkage disabled, \<open>GetLink(a, _, b, c)\<close> followed by \<open>Del(a)\<close> registers no link
  and removes only \<open>a\<close>: the entry of every other key is the one it was before the delete,
  and a \<open>Get\<close> of such a key whose entry has not expired returns the cached value and error,
  and counts a hit without running the fetcher.
\<close>

theorem disabled_linkage_inert:
  assumes "c_link s = None" and "k \<noteq> a"
  shows "(let s1 = snd (cache_GetLink rng now a fetch [b, c] s);
              s2 = cache_Del rng [a] s1 in
          c_link s1 = None \<and> c_link s2 = None
        \<and> cache_cached s2 a = None
        \<and> cache_cached s2 k = cache_cached s1 k
        \<and> (cache_cached s1 k = Some e \<and> \<not> expired now' e \<longrightarrow>
             fst (cache_Get rng now' k fetch' s2) = (item_value (fst (snd e)), item_err (fst (snd e)))
           \<and> c_user (snd (cache_Get rng now' k fetch' s2)) = IncrGetHit (target (c_opt s2)) (c_user s2)))"
proof -
  define s1 where "s1 = snd (cache_GetLink rng now a fetch [b, c] s)"
  define sh where "sh = s1\<lparr>c_user := fold (\<lambda>fn u. fn u [a]) (delFn (c_opt s1)) (c_user s1)\<rparr>"
  define s2 where "s2 = cache_Del rng [a] s1"
  have s2: "s2 = cache_del rng [a] sh"
    by (simp add: s2_def cache_Del_def sh_def)
  have l1: "c_link s1 = None"
    unfolding s1_def using assms(1) by (rule cache_GetLink_links_off)
  then have lh: "c_link sh = None"
    by (simp add: sh_def)
  have l2: "c_link s2 = None"
    unfolding s2 using lh by (rule cache_del_links_off(1))
  have "\<And>k. cache_cached sh k = cache_cached s1 k"
    unfolding sh_def by (rule cache_cached_user)
  then have cc: "\<And>k. cache_cached s2 k = (if k = a then None else cache_cached s1 k)"
    unfolding s2 by (simp add: cache_del_links_off(2) [OF lh])
  have hit: "fst (cache_Get rng now' k fetch' s2) = (item_value (fst (snd e)), item_err (fst (snd e)))
           \<and> c_user (snd (cache_Get rng now' k fetch' s2)) = IncrGetHit (target (c_opt s2)) (c_user s2)"
    if "cache_cached s1 k = Some e" and "\<not> expired now' e"
  proof -
    from that cc assms(2) have "cache_cached s2 k = Some e"
      by simp
    then obtain l2 where "c_local s2 = Some l2" and "cached l2 k = Some e"
      by (auto simp: cache_cached_def split: option.splits)
    from cache_GetLink_hit [OF this that(2), of rng fetch' "[]"] show ?thesis
      by (simp add: cache_Get_def)
  qed
  show ?thesis
    using l1 l2 cc hit assms(2)
    by (simp add: s1_def [symmetric] s2_def [symmetric] Let_def)
qed

theorem disabled_linkage_inert_witness:
  "c_link test_cache_b = None \<and> ''b'' \<noteq> ''a''
   \<and> cache_cached (snd (cache_GetLink range_sorted 0 ''a'' (fetch_value ''va'') [''b'', ''c'']
                          test_cache_b)) ''b''
       = Some (''b'', \<lparr>item_err = None, item_value = ''vb''\<rparr>, 60)
   \<and> \<not> expired 1 (''b'', \<lparr>item_err = None, item_value = ''vb''\<rparr>, 60 :: nat)
   \<and> (let s1 = snd (cache_GetLink range_sorted 0 ''a'' (fetch_value ''va'') [''b'', ''c''] test_cache_b);
          s2 = cache_Del range_sorted [''a''] s1 in
          c_link s1 = None \<and> c_link s2 = None
        \<and> cache_cached s2 ''a'' = None
        \<and> cache_cached s2 ''b'' = cache_cached s1 ''b''
        \<and> (cache_cached s1 ''b'' = Some (''b'', \<lparr>item_err = None, item_value = ''vb''\<rparr>, 60)
              \<and> \<not> expired 1 (''b'', \<lparr>item_err = None, item_value = ''vb''\<rparr>, 60 :: nat) \<longrightarrow>
             fst (cache_Get range_sorted 1 ''b'' (fetch_value ''new'') s2)
               = (item_value (fst (snd (''b'', \<lparr>item_err = None, item_value = ''vb''\<rparr>, 60 :: nat))),
                  item_err (fst (snd (''b'', \<lparr>item_err = None, item_value = ''vb''\<rparr>, 60 :: nat))))
           \<and> c_user (snd (cache_Get range_sorted 1 ''b'' (fetch_value ''new'') s2))
               = IncrGetHit (target (c_opt s2)) (c_user s2)))"
proof -
  have h1: "c_link test_cache_b = None"
    by (simp add: test_cache_b_def cache_eval)
  have h2: "''b'' \<noteq> ''a''"
    by simp
  have h3: "cache_cached (snd (cache_GetLink range_sorted 0 ''a'' (fetch_value ''va'') [''b'', ''c'']
                          test_cache_b)) ''b''
       = Some (''b'', \<lparr>item_err = None, item_value = ''vb''\<rparr>, 60)"
    by (simp add: test_cache_b_def cache_eval)
  have h4: "\<not> expired 1 (''b'', \<lparr>item_err = None, item_value = ''vb''\<rparr>, 60 :: nat)"
    by (simp add: expired_def)
  show ?thesis
    using h1 h2 h3 h4
      disabled_linkage_inert [where s = test_cache_b and rng = range_sorted and now = 0
        and a = "''a''" and b = "''b''" and c = "''c''" and k = "''b''"
        and fetch = "fetch_value ''va''" and fetch' = "fetch_value ''new''" and now' = 1
        and e = "(''b'', \<lparr>item_err = None, item_value = ''vb''\<rparr>, 60)", OF h1 h2]
    by - (intro conjI; assumption)
qed

end
